theory Spec2Isabelle
  imports Complex_Main "HOL-Library.Log_Nat" "HOL-Library.Monad_Syntax"
begin

section \<open>MinRide data generator (src/DataGenerator/main.cpp)\<close>

text \<open>
  The generator is one C++ translation unit: three numeric helpers (\<open>randomInt\<close>,
  \<open>randomDouble\<close>, \<open>lam_tron\<close>), a name and a timestamp generator, and \<open>main\<close>, which
  writes three CSV files. The embedding keeps the source's names. Whatever the C++
  abstract machine leaves undefined (signed overflow, division by zero, an array index
  out of bounds) and any double that is not finite is the value \<open>None\<close>: a computation
  that returns \<open>Some\<close> stayed inside defined, finite behaviour.
\<close>

subsection \<open>The type \<open>int\<close>\<close>

text \<open>\<open>int\<close> is a 32-bit two's complement integer; signed overflow is undefined.\<close>

definition INT_MIN :: int where
  "INT_MIN = - 2147483648"

definition INT_MAX :: int where
  "INT_MAX = 2147483647"

definition int_chk :: "int \<Rightarrow> int option" where
  "int_chk x = (if INT_MIN \<le> x \<and> x \<le> INT_MAX then Some x else None)"

text \<open>The quotient of \<open>/\<close> truncates towards zero, and \<open>a % b\<close> is \<open>a - (a / b) * b\<close>.\<close>

definition c_div :: "int \<Rightarrow> int \<Rightarrow> int" where
  "c_div a b = sgn a * sgn b * (\<bar>a\<bar> div \<bar>b\<bar>)"

definition c_rem :: "int \<Rightarrow> int \<Rightarrow> int option" where
  "c_rem a b =
     (if b = 0 then None
      else if a = INT_MIN \<and> b = - 1 then None
      else Some (a - c_div a b * b))"

subsection \<open>\<open>randomInt\<close>\<close>

text \<open>
  \<^verbatim>\<open>int randomInt(int min, int max) { return min + rand() % (max - min + 1); }\<close>

  \<open>randomInt_val lo hi r\<close> is the value returned when the call of \<open>rand()\<close> yields \<open>r\<close>.
\<close>

definition randomInt_val :: "int \<Rightarrow> int \<Rightarrow> int \<Rightarrow> int option" where
  "randomInt_val lo hi r = do {
     d \<leftarrow> int_chk (hi - lo);
     n \<leftarrow> int_chk (d + 1);
     m \<leftarrow> c_rem r n;
     int_chk (lo + m)
   }"

text \<open>
  \<open>hits rm lo hi v\<close> counts the results of \<open>rand()\<close> in \<open>[0, rm]\<close> for which
  \<open>randomInt(lo, hi)\<close> returns \<open>v\<close>. With \<open>rand()\<close> uniform on \<open>[0, RAND_MAX]\<close> the
  probability of \<open>v\<close> is \<open>hits RAND_MAX lo hi v / (RAND_MAX + 1)\<close>.
\<close>

definition hits :: "int \<Rightarrow> int \<Rightarrow> int \<Rightarrow> int \<Rightarrow> nat" where
  "hits rm lo hi v = length (filter (\<lambda>r. randomInt_val lo hi r = Some v) [0..rm])"

subsection \<open>The type \<open>double\<close>\<close>

text \<open>
  A finite \<open>double\<close> is the rational number it denotes, and every arithmetic operation
  rounds its exact result to the nearest binary64 value, ties to even (the default
  rounding mode; each operation is evaluated in binary64, as with SSE2 code).

  \<open>rne\<close> rounds a rational to the nearest integer, ties to even. \<open>ilog2 x\<close> is
  \<open>\<lfloor>log\<^sub>2 \<bar>x\<bar>\<rfloor>\<close> for \<open>x \<noteq> 0\<close>. \<open>expo x\<close> is the exponent of the binade of \<open>x\<close>, held
  at \<open>-1022\<close> in the subnormal range, so that the spacing of the doubles around \<open>x\<close> is
  \<open>2 powi (expo x - 52)\<close>. \<open>fl\<close> rounds into that grid; the exponent is not bounded above
  in \<open>fl\<close>, and \<open>dbl\<close> adds the bound: a result that rounds beyond \<open>DBL_MAX\<close> is an
  infinity in C++ and \<open>None\<close> here. Signed zeros are not distinguished.
\<close>

definition rne :: "rat \<Rightarrow> int" where
  "rne y = (let f = \<lfloor>y\<rfloor>; d = y - of_int f in
     if d < 1 / 2 then f else if 1 / 2 < d then f + 1 else if even f then f else f + 1)"

definition ilog2 :: "rat \<Rightarrow> int" where
  "ilog2 x = (let (p, q) = quotient_of \<bar>x\<bar>; d = bitlen p - bitlen q in
     if 2 powi d \<le> \<bar>x\<bar> then d else d - 1)"

definition expo :: "rat \<Rightarrow> int" where
  "expo x = (if x = 0 then - 1022 else max (ilog2 x) (- 1022))"

definition fl :: "rat \<Rightarrow> rat" where
  "fl x = (let u = 2 powi (expo x - 52) in of_int (rne (x / u)) * u)"

definition DBL_MAX :: rat where
  "DBL_MAX = (2 ^ 53 - 1) * 2 ^ 971"

definition dbl :: "rat \<Rightarrow> rat option" where
  "dbl x = (if \<bar>fl x\<bar> \<le> DBL_MAX then Some (fl x) else None)"

definition is_double :: "rat \<Rightarrow> bool" where
  "is_double x \<longleftrightarrow> fl x = x \<and> \<bar>x\<bar> \<le> DBL_MAX"

definition d_add :: "rat \<Rightarrow> rat \<Rightarrow> rat option" where
  "d_add x y = dbl (x + y)"

definition d_sub :: "rat \<Rightarrow> rat \<Rightarrow> rat option" where
  "d_sub x y = dbl (x - y)"

definition d_mul :: "rat \<Rightarrow> rat \<Rightarrow> rat option" where
  "d_mul x y = dbl (x * y)"

text \<open>A division by zero gives an infinity or a NaN.\<close>

definition d_div :: "rat \<Rightarrow> rat \<Rightarrow> rat option" where
  "d_div x y = (if y = 0 then None else dbl (x / y))"

text \<open>An \<open>int\<close> converts to \<open>double\<close> exactly: it has at most 31 significant bits.\<close>

definition d_of_int :: "int \<Rightarrow> rat" where
  "d_of_int i = of_int i"

text \<open>
  \<open>round\<close> of \<open><cmath>\<close>: the nearest integer, halfway cases away from zero. The result
  is an integer-valued double and is exact.
\<close>

definition c_round :: "rat \<Rightarrow> rat" where
  "c_round y = (if 0 \<le> y then of_int \<lfloor>y + 1 / 2\<rfloor> else - of_int \<lfloor>- y + 1 / 2\<rfloor>)"

subsection \<open>\<open>randomDouble\<close> and \<open>lam_tron\<close>\<close>

text \<open>
  \<^verbatim>\<open>double randomDouble(double min, double max) {
    return min + (double)rand() / RAND_MAX * (max - min); }\<close>

  \<open>randomDouble_val rm lo hi r\<close> is the value returned when \<open>RAND_MAX\<close> is \<open>rm\<close> and the
  call of \<open>rand()\<close> yields \<open>r\<close>. \<open>RAND_MAX\<close> is a macro of \<open><cstdlib>\<close>, at least 32767,
  and a parameter here.
\<close>

definition randomDouble_val :: "int \<Rightarrow> rat \<Rightarrow> rat \<Rightarrow> int \<Rightarrow> rat option" where
  "randomDouble_val rm lo hi r = do {
     t \<leftarrow> d_div (d_of_int r) (d_of_int rm);
     d \<leftarrow> d_sub hi lo;
     p \<leftarrow> d_mul t d;
     d_add lo p
   }"

text \<open>\<^verbatim>\<open>double lam_tron(double x) { return round(x * 10) / 10; }\<close>\<close>

definition lam_tron :: "rat \<Rightarrow> rat option" where
  "lam_tron x = do {
     y \<leftarrow> d_mul x 10;
     d_div (c_round y) 10
   }"

subsection \<open>The environment of a run\<close>

text \<open>
  What the C++ library and the operating system supply is a parameter of the run:
  \<open>RAND_MAX\<close>, the sequence that \<open>rand()\<close> produces for each seed, the successive
  readings of \<open>time(nullptr)\<close> (a 64-bit \<open>time_t\<close>, seconds since the epoch), the
  conversion \<open>localtime\<close> of the configured time zone, which paths an \<open>ofstream\<close> can
  open for writing, and how many characters a file accepts before a write to it fails
  (\<open>None\<close>: no write fails). The state that the program changes is the seed and position
  of the random sequence, the number of clock readings taken, the files, the error state
  of the stream on each path, and the console.
\<close>

record tm =
  tm_year :: int
  tm_mon :: int
  tm_mday :: int
  tm_hour :: int
  tm_min :: int
  tm_sec :: int

record env =
  RAND_MAX :: int
  rand_seq :: "nat \<Rightarrow> nat \<Rightarrow> int"
  clock :: "nat \<Rightarrow> int"
  localtime :: "int \<Rightarrow> tm"
  can_open :: "string \<Rightarrow> bool"
  write_limit :: "string \<Rightarrow> nat option"

record state =
  seed :: nat
  drawn :: nat
  clock_reads :: nat
  files :: "string \<Rightarrow> string option"
  bad :: "string \<Rightarrow> bool"
  console :: string

text \<open>
  The C standard promises \<open>RAND_MAX \<ge> 32767\<close>, and \<open>rand()\<close> returns an \<open>int\<close> between 0
  and \<open>RAND_MAX\<close>.
\<close>

definition valid_env :: "env \<Rightarrow> bool" where
  "valid_env e \<longleftrightarrow>
     32767 \<le> RAND_MAX e \<and> RAND_MAX e \<le> INT_MAX \<and>
     (\<forall>s n. 0 \<le> rand_seq e s n \<and> rand_seq e s n \<le> RAND_MAX e)"

text \<open>A computation reads the environment, changes the state, and may be undefined.\<close>

type_synonym 'a io = "env \<Rightarrow> state \<Rightarrow> ('a \<times> state) option"

definition ret :: "'a \<Rightarrow> 'a io" where
  "ret x e s = Some (x, s)"

definition bnd :: "'a io \<Rightarrow> ('a \<Rightarrow> 'b io) \<Rightarrow> 'b io" where
  "bnd m f e s = (case m e s of None \<Rightarrow> None | Some (x, s') \<Rightarrow> f x e s')"

definition lift :: "'a option \<Rightarrow> 'a io" where
  "lift v e s = (case v of None \<Rightarrow> None | Some x \<Rightarrow> Some (x, s))"

definition rand :: "int io" where
  "rand e s = Some (rand_seq e (seed s) (drawn s), s\<lparr>drawn := Suc (drawn s)\<rparr>)"

definition srand :: "nat \<Rightarrow> unit io" where
  "srand n e s = Some ((), s\<lparr>seed := n, drawn := 0\<rparr>)"

definition c_time :: "int io" where
  "c_time e s = Some (clock e (clock_reads s), s\<lparr>clock_reads := Suc (clock_reads s)\<rparr>)"

definition randomInt :: "int \<Rightarrow> int \<Rightarrow> int io" where
  "randomInt lo hi = bnd rand (\<lambda>r. lift (randomInt_val lo hi r))"

definition randomDouble :: "rat \<Rightarrow> rat \<Rightarrow> rat io" where
  "randomDouble lo hi = bnd rand (\<lambda>r e. lift (randomDouble_val (RAND_MAX e) lo hi r) e)"

text \<open>
  A \<open>for (int i = a; i <= n; i++)\<close> loop. The increment of \<open>i\<close> is an \<open>int\<close> addition.
\<close>

function for_loop :: "int \<Rightarrow> int \<Rightarrow> (int \<Rightarrow> unit io) \<Rightarrow> unit io" where
  "for_loop i n body e s =
     (if i \<le> n then
        (case body i e s of
           None \<Rightarrow> None
         | Some (u, s') \<Rightarrow>
             (case int_chk (i + 1) of
                None \<Rightarrow> None
              | Some j \<Rightarrow> for_loop j n body e s'))
      else Some ((), s))"
  by pat_completeness auto
termination
  by (relation "measure (\<lambda>(i, n, body, e, s). nat (n + 1 - i))")
    (auto simp: int_chk_def split: if_splits)

declare for_loop.simps [simp del]

subsection \<open>Output\<close>

text \<open>
  An \<open>ofstream\<close> is the path it was opened on and whether the open succeeded; \<open>bad s p\<close> is
  the \<open>badbit\<close> of the stream on path \<open>p\<close>. Opening truncates the file. A stream that
  failed to open ignores every \<open><<\<close>. A write that does not fit the file's limit fails:
  the characters that still fit reach the file, the stream's \<open>badbit\<close> is set, and every
  later \<open><<\<close> on the stream is ignored. The program never tests a stream. (The stream's
  buffer changes when a failure is noticed, not which characters the file holds once the
  stream is closed.)
\<close>

record ofstream =
  path :: string
  good :: bool

definition open_out :: "string \<Rightarrow> ofstream io" where
  "open_out p e s =
     (if can_open e p
      then Some (\<lparr>path = p, good = True\<rparr>,
                 s\<lparr>files := (files s)(p \<mapsto> []), bad := (bad s)(p := False)\<rparr>)
      else Some (\<lparr>path = p, good = False\<rparr>, s))"

definition content :: "state \<Rightarrow> string \<Rightarrow> string" where
  "content s p = (case files s p of None \<Rightarrow> [] | Some c \<Rightarrow> c)"

definition put :: "ofstream \<Rightarrow> string \<Rightarrow> unit io" where
  "put f txt e s =
     (if good f \<and> \<not> bad s (path f) then
        (let c = content s (path f) @ txt in
         case write_limit e (path f) of
           None \<Rightarrow> Some ((), s\<lparr>files := (files s)(path f \<mapsto> c)\<rparr>)
         | Some k \<Rightarrow>
             if length c \<le> k then Some ((), s\<lparr>files := (files s)(path f \<mapsto> c)\<rparr>)
             else Some ((), s\<lparr>files := (files s)(path f \<mapsto> take k c),
                               bad := (bad s)(path f := True)\<rparr>))
      else Some ((), s))"

text \<open>
  \<open>clip e p txt\<close> is what the file on path \<open>p\<close> holds of the text \<open>txt\<close> written to it: all
  of it when no write fails, and else the characters before the first failure.
  \<open>stream_inv e s p\<close>: the file on \<open>p\<close> exists and is within its limit, and the stream's
  \<open>badbit\<close> is set only when the file is full.
\<close>

definition clip :: "env \<Rightarrow> string \<Rightarrow> string \<Rightarrow> string" where
  "clip e p txt = (case write_limit e p of None \<Rightarrow> txt | Some k \<Rightarrow> take k txt)"

definition stream_inv :: "env \<Rightarrow> state \<Rightarrow> string \<Rightarrow> bool" where
  "stream_inv e s p \<longleftrightarrow>
     (case files s p of
        None \<Rightarrow> False
      | Some c \<Rightarrow> clip e p c = c \<and> (if bad s p then write_limit e p = Some (length c) else True))"

definition close_out :: "ofstream \<Rightarrow> unit io" where
  "close_out f = ret ()"

definition cout :: "string \<Rightarrow> unit io" where
  "cout txt e s = Some ((), s\<lparr>console := console s @ txt\<rparr>)"

definition nl :: string where
  "nl = [CHR 0x0A]"

text \<open>Decimal text of an \<open>int\<close>, as \<open>operator<<\<close> writes it.\<close>

definition digit :: "nat \<Rightarrow> char" where
  "digit d = ''0123456789'' ! (d mod 10)"

fun show_nat :: "nat \<Rightarrow> string" where
  "show_nat n = (if n < 10 then [digit n] else show_nat (n div 10) @ [digit (n mod 10)])"

declare show_nat.simps [simp del]

definition show_int :: "int \<Rightarrow> string" where
  "show_int i = (if i < 0 then ''-'' @ show_nat (nat (- i)) else show_nat (nat i))"

text \<open>\<open>digits p n\<close> are the last \<open>p\<close> decimal digits of \<open>n\<close>, with leading zeros.\<close>

fun digits :: "nat \<Rightarrow> nat \<Rightarrow> string" where
  "digits 0 n = []"
| "digits (Suc p) n = digits p (n div 10) @ [digit (n mod 10)]"

text \<open>
  \<open>setfill('0') << setw(2) << n\<close>: the text of \<open>n\<close>, padded on the left with zeros to two
  characters.
\<close>

definition setw2 :: "int \<Rightarrow> string" where
  "setw2 n = replicate (2 - length (show_int n)) CHR ''0'' @ show_int n"

text \<open>
  \<open>fixed << setprecision(p) << v\<close>: the decimal expansion of \<open>v\<close> correctly rounded to \<open>p\<close>
  digits after the point; no point when \<open>p = 0\<close>. \<open>fixed_units p v\<close> is the printed number
  in units of \<open>10\<^sup>-\<^sup>p\<close>, so that the text denotes \<open>fixed_units p v / 10\<^sup>p\<close>.
\<close>

definition fixed_units :: "nat \<Rightarrow> rat \<Rightarrow> int" where
  "fixed_units p v = rne (v * 10 ^ p)"

definition fixed :: "nat \<Rightarrow> rat \<Rightarrow> string" where
  "fixed p v =
     (let n = nat \<bar>fixed_units p v\<bar> in
      (if v < 0 then ''-'' else []) @ show_nat (n div 10 ^ p) @
      (if p = 0 then [] else ''.'' @ digits p (n mod 10 ^ p)))"

subsection \<open>Configuration and tables\<close>

definition SO_TAI_XE :: int where
  "SO_TAI_XE = 100"

definition SO_KHACH_HANG :: int where
  "SO_KHACH_HANG = 100"

definition SO_CHUYEN_DI :: int where
  "SO_CHUYEN_DI = 500"

definition THU_MUC_OUTPUT :: string where
  "THU_MUC_OUTPUT = ''../MinRide/Data''"

definition HO :: "string list" where
  "HO = [''Nguyen'', ''Tran'', ''Le'', ''Pham'', ''Hoang'', ''Vo'', ''Dang'', ''Bui'', ''Ngo'',
     ''Truong'']"

definition TEN_DEM :: "string list" where
  "TEN_DEM = [''Van'', ''Thi'', ''Duc'', ''Minh'', ''Quang'', ''Thanh'', ''Manh'', ''Quoc'',
     ''Hong'', ''Tuan'']"

definition TEN :: "string list" where
  "TEN = [''An'', ''Binh'', ''Cuong'', ''Dung'', ''Em'', ''Phong'', ''Giang'', ''Hai'', ''Khoa'',
     ''Lam'', ''Hoa'', ''Lan'', ''Linh'', ''Nga'', ''Huong'', ''Tam'', ''Tuan'', ''Hung'', ''Duc'',
     ''Thao'']"

definition QUAN :: "string list" where
  "QUAN = [''Quan 1'', ''Quan 3'', ''Quan 5'', ''Quan 7'', ''Quan 10'', ''Quan Binh Thanh'',
     ''Quan Go Vap'', ''Quan Thu Duc'', ''Quan Phu Nhuan'', ''Quan Tan Binh'']"

text \<open>\<open>a[i]\<close> on a built-in array: an index outside the array is undefined.\<close>

definition elem_at :: "'a list \<Rightarrow> int \<Rightarrow> 'a option" where
  "elem_at xs i = (if 0 \<le> i \<and> i < int (length xs) then Some (xs ! nat i) else None)"

subsection \<open>\<open>sinh_ten\<close> and \<open>sinh_timestamp\<close>\<close>

text \<open>
  \<^verbatim>\<open>return string(HO[randomInt(0, 9)]) + " " + TEN_DEM[randomInt(0, 9)] + " "
       + TEN[randomInt(0, 19)];\<close>

  The three draws are taken from left to right here. C++ leaves the order of the calls
  within one expression open; another order permutes which draw feeds which field, and
  every property below holds for all sequences of draws.
\<close>

definition sinh_ten :: "string io" where
  "sinh_ten =
     bnd (randomInt 0 9) (\<lambda>a. bnd (lift (elem_at HO a)) (\<lambda>ho.
     bnd (randomInt 0 9) (\<lambda>b. bnd (lift (elem_at TEN_DEM b)) (\<lambda>dem.
     bnd (randomInt 0 19) (\<lambda>c. bnd (lift (elem_at TEN c)) (\<lambda>ten.
     ret (ho @ '' '' @ dem @ '' '' @ ten)))))))"

text \<open>
  The text that \<open>sinh_timestamp\<close> builds from the broken-down time: the year is written
  before \<open>setfill('0')\<close>, without a width. \<open>1900 + tm_year\<close> and \<open>1 + tm_mon\<close> cannot
  overflow, since \<open>localtime\<close> only returns years that fit an \<open>int\<close>; the null pointer
  that it returns otherwise is not modelled.
\<close>

definition format_tm :: "tm \<Rightarrow> string" where
  "format_tm t =
     show_int (1900 + tm_year t) @ ''-'' @ setw2 (1 + tm_mon t) @ ''-'' @ setw2 (tm_mday t) @
     ''T'' @ setw2 (tm_hour t) @ '':'' @ setw2 (tm_min t) @ '':'' @ setw2 (tm_sec t)"

text \<open>
  \<^verbatim>\<open>time_t now = time(nullptr);
  now -= ngay_truoc * 86400 + randomInt(0, 23) * 3600;
  tm* t = localtime(&now);\<close>

  The offset is computed in \<open>int\<close>. \<open>stamp_offset d h\<close> is its value for \<open>ngay_truoc = d\<close>
  and hour draw \<open>h\<close>.
\<close>

definition stamp_offset :: "int \<Rightarrow> int \<Rightarrow> int option" where
  "stamp_offset d h = do {
     a \<leftarrow> int_chk (d * 86400);
     b \<leftarrow> int_chk (h * 3600);
     int_chk (a + b)
   }"

definition sinh_timestamp :: "int \<Rightarrow> string io" where
  "sinh_timestamp ngay_truoc =
     bnd c_time (\<lambda>now.
     bnd (randomInt 0 23) (\<lambda>h.
     bnd (lift (stamp_offset ngay_truoc h)) (\<lambda>off e.
     ret (format_tm (localtime e (now - off))) e)))"

subsection \<open>The rows\<close>

text \<open>
  Each iteration of a loop of \<open>main\<close> computes the fields of one row and writes them as
  one line. The fields are collected in a record before they are formatted; the source
  formats them as it draws them.
\<close>

record driver =
  dname :: string
  rating :: rat
  dx :: rat
  dy :: rat
  total_rides :: int

record customer =
  cname :: string
  district :: string
  cx :: rat
  cy :: rat

record ride =
  customer_id :: int
  driver_id :: int
  distance :: rat
  fare :: rat
  timestamp :: string
  status :: string

text \<open>
  \<^verbatim>\<open>f1 << i << "," << sinh_ten() << ","
     << fixed << setprecision(1) << lam_tron(randomDouble(3.5, 5.0)) << ","
     << lam_tron(randomDouble(0, 10)) << "," << lam_tron(randomDouble(0, 10)) << ","
     << randomInt(10, 80) << "\n";\<close>
\<close>

definition driver_fields :: "driver io" where
  "driver_fields =
     bnd sinh_ten (\<lambda>n.
     bnd (randomDouble (7 / 2) 5) (\<lambda>a. bnd (lift (lam_tron a)) (\<lambda>r.
     bnd (randomDouble 0 10) (\<lambda>b. bnd (lift (lam_tron b)) (\<lambda>px.
     bnd (randomDouble 0 10) (\<lambda>c. bnd (lift (lam_tron c)) (\<lambda>py.
     bnd (randomInt 10 80) (\<lambda>t.
     ret \<lparr>dname = n, rating = r, dx = px, dy = py, total_rides = t\<rparr>))))))))"

definition driver_line :: "int \<Rightarrow> driver \<Rightarrow> string" where
  "driver_line i d =
     show_int i @ '','' @ dname d @ '','' @ fixed 1 (rating d) @ '','' @ fixed 1 (dx d) @ '','' @
     fixed 1 (dy d) @ '','' @ show_int (total_rides d)"

definition driver_row :: "ofstream \<Rightarrow> int \<Rightarrow> unit io" where
  "driver_row f i = bnd driver_fields (\<lambda>d. put f (driver_line i d @ nl))"

text \<open>
  \<^verbatim>\<open>f2 << i << "," << sinh_ten() << "," << QUAN[randomInt(0, 9)] << ","
     << fixed << setprecision(1) << lam_tron(randomDouble(0, 10)) << ","
     << lam_tron(randomDouble(0, 10)) << "\n";\<close>
\<close>

definition customer_fields :: "customer io" where
  "customer_fields =
     bnd sinh_ten (\<lambda>n.
     bnd (randomInt 0 9) (\<lambda>q. bnd (lift (elem_at QUAN q)) (\<lambda>dist.
     bnd (randomDouble 0 10) (\<lambda>b. bnd (lift (lam_tron b)) (\<lambda>px.
     bnd (randomDouble 0 10) (\<lambda>c. bnd (lift (lam_tron c)) (\<lambda>py.
     ret \<lparr>cname = n, district = dist, cx = px, cy = py\<rparr>)))))))"

definition customer_line :: "int \<Rightarrow> customer \<Rightarrow> string" where
  "customer_line i c =
     show_int i @ '','' @ cname c @ '','' @ district c @ '','' @ fixed 1 (cx c) @ '','' @
     fixed 1 (cy c)"

definition customer_row :: "ofstream \<Rightarrow> int \<Rightarrow> unit io" where
  "customer_row f i = bnd customer_fields (\<lambda>c. put f (customer_line i c @ nl))"

text \<open>
  \<^verbatim>\<open>double dist = lam_tron(randomDouble(2, 12));
  f3 << i << "," << randomInt(1, SO_KHACH_HANG) << "," << randomInt(1, SO_TAI_XE) << ","
     << fixed << setprecision(1) << dist << "," << setprecision(0) << (dist * 12000) << ","
     << sinh_timestamp(randomInt(1, 30)) << ","
     << (randomInt(1, 10) <= 8 ? "CONFIRMED" : "CANCELLED") << "\n";\<close>
\<close>

definition ride_status :: "int \<Rightarrow> string" where
  "ride_status v = (if v \<le> 8 then ''CONFIRMED'' else ''CANCELLED'')"

text \<open>
  \<open>confirmed_hits rm\<close> counts the results of \<open>rand()\<close> in \<open>[0, rm]\<close> for which the status
  expression \<open>randomInt(1, 10) <= 8 ? "CONFIRMED" : "CANCELLED"\<close> is CONFIRMED. With
  \<open>rand()\<close> uniform on \<open>[0, RAND_MAX]\<close>, a ride is CONFIRMED with probability
  \<open>confirmed_hits RAND_MAX / (RAND_MAX + 1)\<close>.
\<close>

definition confirmed_hits :: "int \<Rightarrow> nat" where
  "confirmed_hits rm =
     length (filter (\<lambda>r. map_option ride_status (randomInt_val 1 10 r) = Some ''CONFIRMED'')
       [0..rm])"

definition ride_fields :: "ride io" where
  "ride_fields =
     bnd (randomDouble 2 12) (\<lambda>a. bnd (lift (lam_tron a)) (\<lambda>dist.
     bnd (randomInt 1 SO_KHACH_HANG) (\<lambda>c.
     bnd (randomInt 1 SO_TAI_XE) (\<lambda>d.
     bnd (lift (d_mul dist 12000)) (\<lambda>f.
     bnd (randomInt 1 30) (\<lambda>days. bnd (sinh_timestamp days) (\<lambda>ts.
     bnd (randomInt 1 10) (\<lambda>v.
     ret \<lparr>customer_id = c, driver_id = d, distance = dist, fare = f, timestamp = ts,
          status = ride_status v\<rparr>))))))))"

definition ride_line :: "int \<Rightarrow> ride \<Rightarrow> string" where
  "ride_line i r =
     show_int i @ '','' @ show_int (customer_id r) @ '','' @ show_int (driver_id r) @ '','' @
     fixed 1 (distance r) @ '','' @ fixed 0 (fare r) @ '','' @ timestamp r @ '','' @ status r"

definition ride_row :: "ofstream \<Rightarrow> int \<Rightarrow> unit io" where
  "ride_row f i = bnd ride_fields (\<lambda>r. put f (ride_line i r @ nl))"

subsection \<open>\<open>main\<close>\<close>

definition file_driver :: string where
  "file_driver = THU_MUC_OUTPUT @ ''/drivers.csv''"

definition file_customer :: string where
  "file_customer = THU_MUC_OUTPUT @ ''/customers.csv''"

definition file_ride :: string where
  "file_ride = THU_MUC_OUTPUT @ ''/rides.csv''"

definition banner :: string where
  "banner = ''========================================''"

text \<open>
  \<open>srand(time(nullptr))\<close> converts the time to \<open>unsigned int\<close>. The value of \<open>main\<close> is the
  exit code.
\<close>

definition main :: "int io" where
  "main =
     bnd c_time (\<lambda>t0. bnd (srand (nat (t0 mod 2 ^ 32))) (\<lambda>_.
     bnd (cout (nl @ banner @ nl @ ''   MINRIDE DATA GENERATOR'' @ nl @ banner @ nl @ nl)) (\<lambda>_.
     bnd (open_out file_driver) (\<lambda>f1.
     bnd (put f1 (''ID,Name,Rating,X,Y,TotalRides'' @ nl)) (\<lambda>_.
     bnd (cout (''Dang sinh '' @ show_int SO_TAI_XE @ '' tai xe...'' @ nl)) (\<lambda>_.
     bnd (for_loop 1 SO_TAI_XE (driver_row f1)) (\<lambda>_.
     bnd (close_out f1) (\<lambda>_.
     bnd (cout (''  -> '' @ file_driver @ nl)) (\<lambda>_.
     bnd (open_out file_customer) (\<lambda>f2.
     bnd (put f2 (''ID,Name,District,X,Y'' @ nl)) (\<lambda>_.
     bnd (cout (''Dang sinh '' @ show_int SO_KHACH_HANG @ '' khach hang...'' @ nl)) (\<lambda>_.
     bnd (for_loop 1 SO_KHACH_HANG (customer_row f2)) (\<lambda>_.
     bnd (close_out f2) (\<lambda>_.
     bnd (cout (''  -> '' @ file_customer @ nl)) (\<lambda>_.
     bnd (open_out file_ride) (\<lambda>f3.
     bnd (put f3 (''RideId,CustomerId,DriverId,Distance,Fare,Timestamp,Status'' @ nl)) (\<lambda>_.
     bnd (cout (''Dang sinh '' @ show_int SO_CHUYEN_DI @ '' chuyen di...'' @ nl)) (\<lambda>_.
     bnd (for_loop 1 SO_CHUYEN_DI (ride_row f3)) (\<lambda>_.
     bnd (close_out f3) (\<lambda>_.
     bnd (cout (''  -> '' @ file_ride @ nl)) (\<lambda>_.
     bnd (cout (nl @ banner @ nl @ ''   HOAN THANH!'' @ nl @ banner @ nl @ nl)) (\<lambda>_.
     ret 0))))))))))))))))))))))"

text \<open>
  The lines of a file: each line ends at a newline; text after the last newline is a line
  of its own when it is not empty. The data lines are the lines after the header.
\<close>

fun lines_from :: "string \<Rightarrow> string \<Rightarrow> string list" where
  "lines_from acc [] = (if acc = [] then [] else [acc])"
| "lines_from acc (c # cs) =
     (if c = CHR 0x0A then acc # lines_from [] cs else lines_from (acc @ [c]) cs)"

definition lines_of :: "string \<Rightarrow> string list" where
  "lines_of txt = lines_from [] txt"

definition data_lines :: "string \<Rightarrow> string list" where
  "data_lines txt = tl (lines_of txt)"

text \<open>
  What a run of \<open>main\<close> leaves behind: the exit code, the content of a file, and the
  text on the console. \<open>transcript\<close> is the text that \<open>main\<close> writes to \<open>cout\<close>.
\<close>

definition exit_code :: "env \<Rightarrow> state \<Rightarrow> int option" where
  "exit_code e s = (case main e s of None \<Rightarrow> None | Some (c, s') \<Rightarrow> Some c)"

definition file_after :: "env \<Rightarrow> state \<Rightarrow> string \<Rightarrow> string option" where
  "file_after e s p = (case main e s of None \<Rightarrow> None | Some (c, s') \<Rightarrow> files s' p)"

definition console_after :: "env \<Rightarrow> state \<Rightarrow> string option" where
  "console_after e s = (case main e s of None \<Rightarrow> None | Some (c, s') \<Rightarrow> Some (console s'))"

definition transcript :: string where
  "transcript =
     nl @ banner @ nl @ ''   MINRIDE DATA GENERATOR'' @ nl @ banner @ nl @ nl @
     ''Dang sinh '' @ show_int SO_TAI_XE @ '' tai xe...'' @ nl @
     ''  -> '' @ file_driver @ nl @
     ''Dang sinh '' @ show_int SO_KHACH_HANG @ '' khach hang...'' @ nl @
     ''  -> '' @ file_customer @ nl @
     ''Dang sinh '' @ show_int SO_CHUYEN_DI @ '' chuyen di...'' @ nl @
     ''  -> '' @ file_ride @ nl @
     nl @ banner @ nl @ ''   HOAN THANH!'' @ nl @ banner @ nl @ nl"

definition no_nl :: "string \<Rightarrow> bool" where
  "no_nl txt \<longleftrightarrow> CHR 0x0A \<notin> set txt"

subsection \<open>Reading the printed numbers\<close>

text \<open>
  \<open>tenths v k\<close>: the double \<open>v\<close> is \<open>k / 10\<close> rounded to a double, and
  \<open>fixed << setprecision(1)\<close> prints it as the decimal numeral of \<open>k / 10\<close>, with one digit
  after the point.
\<close>

definition tenths :: "rat \<Rightarrow> int \<Rightarrow> bool" where
  "tenths v k \<longleftrightarrow>
     v = fl (of_int k / 10) \<and> fixed_units 1 v = k \<and>
     fixed 1 v = show_int (k div 10) @ ''.'' @ show_int (k mod 10)"

subsection \<open>A sample environment\<close>

text \<open>
  A machine with \<open>RAND_MAX = 32767\<close>, a linear congruential \<open>rand()\<close>, a clock that
  starts at 2026-10-30 07:00:00 UTC and advances by a second per reading, the time zone
  UTC, and a writable output directory on a disk with room; and the state in which a
  program starts.
  \<open>utc_tm\<close> is the proleptic Gregorian calendar.
\<close>

definition utc_tm :: "int \<Rightarrow> tm" where
  "utc_tm t =
     (let days = t div 86400; secs = t mod 86400;
          z = days + 719468; era = z div 146097; doe = z mod 146097;
          yoe = (doe - doe div 1460 + doe div 36524 - doe div 146096) div 365;
          doy = doe - (365 * yoe + yoe div 4 - yoe div 100);
          mp = (5 * doy + 2) div 153;
          d = doy - (153 * mp + 2) div 5 + 1;
          m = (if mp < 10 then mp + 3 else mp - 9);
          yr = yoe + era * 400 + (if m \<le> 2 then 1 else 0)
      in \<lparr>tm_year = yr - 1900, tm_mon = m - 1, tm_mday = d, tm_hour = secs div 3600,
          tm_min = secs mod 3600 div 60, tm_sec = secs mod 60\<rparr>)"

definition sample_env :: env where
  "sample_env =
     \<lparr>RAND_MAX = 32767,
      rand_seq = (\<lambda>sd n. (int sd + 7919 * int n) mod 32768),
      clock = (\<lambda>n. 1793343600 + int n),
      localtime = utc_tm,
      can_open = (\<lambda>p. True),
      write_limit = (\<lambda>p. None)\<rparr>"

definition start_state :: state where
  "start_state =
     \<lparr>seed = 1, drawn = 0, clock_reads = 0, files = (\<lambda>p. None), bad = (\<lambda>p. False),
      console = []\<rparr>"

text \<open>The same machine with the output directory missing: no file can be opened.\<close>

definition no_dir_env :: env where
  "no_dir_env = sample_env\<lparr>can_open := (\<lambda>p. False)\<rparr>"

text \<open>
  The same machine with room for 30 characters in each file: the header line of
  \<open>drivers.csv\<close> fits, the first write after it fails.
\<close>

definition full_disk_env :: env where
  "full_disk_env = sample_env\<lparr>write_limit := (\<lambda>p. Some 30)\<rparr>"

subsection \<open>The shape of a timestamp\<close>

text \<open>
  \<open>tm_ok t\<close>: the broken-down time \<open>t\<close> has its fields in the ranges that \<open>localtime\<close>
  documents, and a year from 1000 to 9999. \<open>is_iso_stamp\<close> recognises the texts of the
  shape \<open>YYYY-MM-DDTHH:MM:SS\<close>: in the pattern, \<open>d\<close> stands for one decimal digit and
  every other character for itself.
\<close>

definition tm_ok :: "tm \<Rightarrow> bool" where
  "tm_ok t \<longleftrightarrow>
     1000 \<le> 1900 + tm_year t \<and> 1900 + tm_year t \<le> 9999 \<and>
     0 \<le> tm_mon t \<and> tm_mon t \<le> 11 \<and> 1 \<le> tm_mday t \<and> tm_mday t \<le> 31 \<and>
     0 \<le> tm_hour t \<and> tm_hour t \<le> 23 \<and> 0 \<le> tm_min t \<and> tm_min t \<le> 59 \<and>
     0 \<le> tm_sec t \<and> tm_sec t \<le> 60"

definition is_digit :: "char \<Rightarrow> bool" where
  "is_digit c \<longleftrightarrow> c \<in> set ''0123456789''"

definition fits :: "char \<Rightarrow> char \<Rightarrow> bool" where
  "fits p c = (if p = CHR ''d'' then is_digit c else c = p)"

definition is_iso_stamp :: "string \<Rightarrow> bool" where
  "is_iso_stamp txt = list_all2 fits ''dddd-dd-ddTdd:dd:dd'' txt"

section \<open>Properties\<close>

subsection \<open>Integer draws\<close>

lemma int_mod_range:
  fixes r n :: int
  shows "0 < n \<Longrightarrow> 0 \<le> r mod n \<and> r mod n < n"
  by simp

lemma c_rem_nonneg:
  assumes "0 \<le> a" "0 < b"
  shows "c_rem a b = Some (a mod b)"
proof -
  have "c_div a b = a div b"
    using assms by (cases "a = 0") (simp_all add: c_div_def)
  then have "a - c_div a b * b = a mod b"
    by (simp add: minus_div_mult_eq_mod)
  with assms show ?thesis
    by (simp add: c_rem_def)
qed

lemma randomInt_val_eq:
  assumes "INT_MIN \<le> lo" "lo \<le> hi" "hi \<le> INT_MAX" "hi - lo < INT_MAX" "0 \<le> r"
  shows "randomInt_val lo hi r = Some (lo + r mod (hi - lo + 1))"
proof -
  let ?n = "hi - lo + 1"
  have n: "0 < ?n" using assms by simp
  have m: "0 \<le> r mod ?n \<and> r mod ?n < ?n"
    using n by (rule int_mod_range)
  have 1: "int_chk (hi - lo) = Some (hi - lo)"
    using assms by (simp add: int_chk_def INT_MIN_def INT_MAX_def)
  have 2: "int_chk ?n = Some ?n"
    using assms by (simp add: int_chk_def INT_MIN_def INT_MAX_def)
  have 3: "c_rem r ?n = Some (r mod ?n)"
    using assms(5) n by (rule c_rem_nonneg)
  have "INT_MIN \<le> lo + r mod ?n \<and> lo + r mod ?n \<le> INT_MAX"
    using assms m by linarith
  then have 4: "int_chk (lo + r mod ?n) = Some (lo + r mod ?n)"
    unfolding int_chk_def by (rule if_P)
  show ?thesis
    by (simp add: randomInt_val_def 1 2 3 4)
qed

lemma randomInt_val_range:
  assumes "INT_MIN \<le> lo" "lo \<le> hi" "hi \<le> INT_MAX" "hi - lo < INT_MAX" "0 \<le> r"
  shows "\<exists>v. randomInt_val lo hi r = Some v \<and> lo \<le> v \<and> v \<le> hi"
proof -
  let ?n = "hi - lo + 1"
  have n: "0 < ?n" using assms by simp
  have "0 \<le> r mod ?n \<and> r mod ?n < ?n"
    using n by (rule int_mod_range)
  then have "lo \<le> lo + r mod ?n \<and> lo + r mod ?n \<le> hi"
    by linarith
  then show ?thesis
    using randomInt_val_eq [OF assms] by blast
qed

text \<open>Counting the residues: how many \<open>r < N\<close> leave remainder \<open>k\<close> modulo \<open>n\<close>.\<close>

lemma count_residue_nat:
  fixes n k :: nat
  assumes "k < n"
  shows "length (filter (\<lambda>r. r mod n = k) [0..<N]) = N div n + (if k < N mod n then 1 else 0)"
proof (induction N)
  case 0
  then show ?case by simp
next
  case (Suc N)
  have n: "0 < n" using assms by simp
  show ?case
  proof (cases "Suc (N mod n) = n")
    case True
    then have "Suc N mod n = 0" "Suc N div n = Suc (N div n)"
      by (simp_all add: mod_Suc div_Suc)
    moreover have "N mod n = k \<longleftrightarrow> \<not> k < N mod n"
      using True assms by auto
    ultimately show ?thesis
      using Suc by auto
  next
    case False
    then have "Suc N mod n = Suc (N mod n)" "Suc N div n = N div n"
      by (simp_all add: mod_Suc div_Suc)
    then show ?thesis
      using Suc by auto
  qed
qed

lemma upto_map_int: "[0..int N - 1] = map int [0..<N]"
proof (induction N)
  case 0
  then show ?case by simp
next
  case (Suc N)
  have "[0..int (Suc N) - 1] = [0..int N - 1] @ [int N]"
    using upto_rec2 [of 0 "int N"] by simp
  then show ?case
    using Suc by simp
qed

lemma count_residue_int:
  fixes n k rm :: int
  assumes "0 \<le> k" "k < n" "0 \<le> rm"
  shows "int (length (filter (\<lambda>r. r mod n = k) [0..rm])) =
           (rm + 1) div n + (if k < (rm + 1) mod n then 1 else 0)"
proof -
  define N where "N = nat (rm + 1)"
  have rm: "rm = int N - 1" using assms by (simp add: N_def)
  have n: "n = int (nat n)" and k: "k = int (nat k)" using assms by simp_all
  have "filter (\<lambda>r. r mod n = k) (map int [0..<N]) = map int (filter (\<lambda>r. r mod nat n = nat k) [0..<N])"
  proof -
    have "\<And>r::nat. (int r mod n = k) = (r mod nat n = nat k)"
    proof -
      fix r :: nat
      have "int r mod int (nat n) = int (r mod nat n)" by (simp add: zmod_int)
      then show "(int r mod n = k) = (r mod nat n = nat k)"
        using n k by (metis nat_int)
    qed
    then show ?thesis by (simp add: filter_map comp_def)
  qed
  then have "length (filter (\<lambda>r. r mod n = k) [0..rm]) =
      N div nat n + (if nat k < N mod nat n then 1 else 0)"
    using count_residue_nat [of "nat k" "nat n" N] assms
    by (simp add: rm upto_map_int)
  moreover have "int (N div nat n) = (rm + 1) div n"
    using n by (metis rm add.commute diff_add_cancel zdiv_int add.commute)
  moreover have "int (N mod nat n) = (rm + 1) mod n"
    using n by (metis rm add.commute diff_add_cancel zmod_int)
  ultimately show ?thesis
    using assms by auto
qed

lemma hits_eq:
  assumes "INT_MIN \<le> lo" "lo \<le> hi" "hi \<le> INT_MAX" "hi - lo < INT_MAX" "0 \<le> rm"
    and "lo \<le> v" "v \<le> hi"
  shows "int (hits rm lo hi v) =
     (rm + 1) div (hi - lo + 1) + (if v - lo < (rm + 1) mod (hi - lo + 1) then 1 else 0)"
proof -
  have "filter (\<lambda>r. randomInt_val lo hi r = Some v) [0..rm] =
        filter (\<lambda>r. r mod (hi - lo + 1) = v - lo) [0..rm]"
  proof (rule filter_cong [OF refl])
    fix r assume "r \<in> set [0..rm]"
    then have "0 \<le> r" by simp
    then have "randomInt_val lo hi r = Some (lo + r mod (hi - lo + 1))"
      using assms(1-4) by (simp add: randomInt_val_eq)
    then show "(randomInt_val lo hi r = Some v) = (r mod (hi - lo + 1) = v - lo)"
      by auto
  qed
  then show ?thesis
    unfolding hits_def using count_residue_int [of "v - lo" "hi - lo + 1" rm] assms
    by simp
qed

lemma randomInt_val_full_span: "randomInt_val INT_MIN INT_MAX r = None"
  by (simp add: randomInt_val_def int_chk_def INT_MIN_def INT_MAX_def)

text \<open>Counting the results of \<open>rand()\<close> for which a ride is CONFIRMED.\<close>

lemma count_below_nat:
  fixes n k :: nat
  assumes "k \<le> n" "0 < n"
  shows "length (filter (\<lambda>r. r mod n < k) [0..<N]) = k * (N div n) + min k (N mod n)"
proof (induction N)
  case 0
  then show ?case by simp
next
  case (Suc N)
  show ?case
  proof (cases "Suc (N mod n) = n")
    case True
    then have "Suc N mod n = 0" "Suc N div n = Suc (N div n)"
      by (simp_all add: mod_Suc div_Suc)
    moreover have "N mod n < k \<longleftrightarrow> k = n"
      using True assms by auto
    moreover have "min k (N mod n) = (if k = n then n - 1 else k)"
      using True assms by auto
    ultimately show ?thesis
      using Suc assms by auto
  next
    case False
    then have "Suc N mod n = Suc (N mod n)" "Suc N div n = N div n"
      by (simp_all add: mod_Suc div_Suc)
    then show ?thesis
      using Suc by (auto simp: min_def)
  qed
qed

lemma count_below_int:
  fixes n k rm :: int
  assumes "0 \<le> k" "k \<le> n" "0 < n" "0 \<le> rm"
  shows "int (length (filter (\<lambda>r. r mod n < k) [0..rm])) =
           k * ((rm + 1) div n) + min k ((rm + 1) mod n)"
proof -
  define N where "N = nat (rm + 1)"
  have rm: "rm = int N - 1" using assms by (simp add: N_def)
  have n: "n = int (nat n)" and k: "k = int (nat k)" using assms by simp_all
  have "filter (\<lambda>r. r mod n < k) (map int [0..<N]) = map int (filter (\<lambda>r. r mod nat n < nat k) [0..<N])"
  proof -
    have "\<And>r::nat. (int r mod n < k) = (r mod nat n < nat k)"
    proof -
      fix r :: nat
      have "int r mod int (nat n) = int (r mod nat n)" by (simp add: zmod_int)
      then show "(int r mod n < k) = (r mod nat n < nat k)"
        using n k by (metis of_nat_less_iff)
    qed
    then show ?thesis by (simp add: filter_map comp_def)
  qed
  then have "length (filter (\<lambda>r. r mod n < k) [0..rm]) =
      nat k * (N div nat n) + min (nat k) (N mod nat n)"
    using count_below_nat [of "nat k" "nat n" N] assms
    by (simp add: rm upto_map_int)
  then have "int (length (filter (\<lambda>r. r mod n < k) [0..rm])) =
      int (nat k) * int (N div nat n) + min (int (nat k)) (int (N mod nat n))"
    by (simp only: of_nat_add of_nat_mult of_nat_min)
  moreover have "int (N div nat n) = (rm + 1) div n"
    using n by (metis rm add.commute diff_add_cancel zdiv_int add.commute)
  moreover have "int (N mod nat n) = (rm + 1) mod n"
    using n by (metis rm add.commute diff_add_cancel zmod_int)
  ultimately show ?thesis
    using k by (simp only:)
qed

lemma confirmed_hits_eq:
  assumes "0 \<le> rm"
  shows "int (confirmed_hits rm) = 8 * ((rm + 1) div 10) + min 8 ((rm + 1) mod 10)"
proof -
  have "filter (\<lambda>r. map_option ride_status (randomInt_val 1 10 r) = Some ''CONFIRMED'') [0..rm] =
        filter (\<lambda>r. r mod 10 < 8) [0..rm]"
  proof (rule filter_cong [OF refl])
    fix r assume "r \<in> set [0..rm]"
    then have "0 \<le> r" by simp
    then have "randomInt_val 1 10 r = Some (1 + r mod (10 - 1 + 1))"
      by (intro randomInt_val_eq) (simp_all add: INT_MIN_def INT_MAX_def)
    then show "(map_option ride_status (randomInt_val 1 10 r) = Some ''CONFIRMED'') = (r mod 10 < 8)"
      by (auto simp: ride_status_def)
  qed
  then show ?thesis
    unfolding confirmed_hits_def using count_below_int [of 8 10 rm] assms
    by simp
qed

lemma confirmed_share:
  assumes "0 \<le> rm"
  shows "8 * (rm + 1) \<le> 10 * int (confirmed_hits rm)"
    and "10 * int (confirmed_hits rm) \<le> 8 * (rm + 1) + 16"
    and "(10 * int (confirmed_hits rm) = 8 * (rm + 1)) = ((rm + 1) mod 10 = 0)"
proof -
  define q where "q = (rm + 1) div 10"
  define m where "m = (rm + 1) mod 10"
  have rm: "rm + 1 = 10 * q + m" by (simp add: q_def m_def)
  have m: "0 \<le> m \<and> m < 10" unfolding m_def by (rule int_mod_range) simp
  have h: "int (confirmed_hits rm) = 8 * q + min 8 m"
    using confirmed_hits_eq [OF assms] by (simp add: q_def m_def)
  show "8 * (rm + 1) \<le> 10 * int (confirmed_hits rm)"
    using m unfolding h rm by (simp add: min_def)
  show "10 * int (confirmed_hits rm) \<le> 8 * (rm + 1) + 16"
    using m unfolding h rm by (simp add: min_def)
  show "(10 * int (confirmed_hits rm) = 8 * (rm + 1)) = ((rm + 1) mod 10 = 0)"
    using m unfolding h rm m_def [symmetric] by (auto simp: min_def)
qed

subsection \<open>Rounding to binary64\<close>

lemma rne_floor: "\<lfloor>y\<rfloor> \<le> rne y \<and> rne y \<le> \<lfloor>y\<rfloor> + 1"
  by (simp add: rne_def Let_def)

lemma rne_of_int [simp]: "rne (of_int m) = m"
  by (simp add: rne_def)

lemma rne_ge: "of_int m \<le> y \<Longrightarrow> m \<le> rne y"
proof -
  assume "of_int m \<le> y"
  then have "m \<le> \<lfloor>y\<rfloor>" by (simp add: le_floor_iff)
  then show ?thesis using rne_floor [of y] by linarith
qed

lemma rne_le: "y \<le> of_int m \<Longrightarrow> rne y \<le> m"
proof (cases "y = of_int m")
  case True
  then show ?thesis by simp
next
  case False
  assume "y \<le> of_int m"
  with False have "y < of_int m" by simp
  then have "\<lfloor>y\<rfloor> < m" by (simp add: floor_less_iff)
  then show ?thesis using rne_floor [of y] by linarith
qed

lemma rne_minus: "rne (- y) = - rne y"
proof (cases "y = of_int \<lfloor>y\<rfloor>")
  case True
  then have "rne y = \<lfloor>y\<rfloor>" by (metis rne_of_int)
  moreover have "- y = of_int (- \<lfloor>y\<rfloor>)" using True by simp
  then have "rne (- y) = - \<lfloor>y\<rfloor>" by (metis rne_of_int)
  ultimately show ?thesis by simp
next
  case False
  then have c: "\<lceil>y\<rceil> = \<lfloor>y\<rfloor> + 1"
    by (metis ceiling_altdef)
  have f: "\<lfloor>- y\<rfloor> = - \<lfloor>y\<rfloor> - 1"
    using c by (simp add: ceiling_def)
  have e: "even (- \<lfloor>y\<rfloor> - 1) \<longleftrightarrow> \<not> even \<lfloor>y\<rfloor>" by simp
  show ?thesis
    unfolding rne_def Let_def f e
    by (auto simp: algebra_simps)
qed

lemma ilog2_bounds:
  assumes "x \<noteq> 0"
  shows "2 powi (ilog2 x) \<le> \<bar>x\<bar> \<and> \<bar>x\<bar> < 2 powi (ilog2 x + 1)"
proof -
  obtain p q where pq: "quotient_of \<bar>x\<bar> = (p, q)" by (cases "quotient_of \<bar>x\<bar>")
  have q: "0 < q" using pq by (rule quotient_of_denom_pos)
  have x: "\<bar>x\<bar> = of_int p / of_int q" using pq by (rule quotient_of_div)
  have "0 < \<bar>x\<bar>" using assms by simp
  then have p: "0 < p" using q x by (simp add: zero_less_divide_iff)
  define bp bq where "bp = bitlen p" and "bq = bitlen q"
  have bp: "1 \<le> bp" and bq: "1 \<le> bq"
    using p q bitlen_eq_zero_iff [of p] bitlen_eq_zero_iff [of q] bitlen_nonneg [of p] bitlen_nonneg [of q]
    by (auto simp: bp_def bq_def)
  have P: "(2::rat) powi (bp - 1) \<le> of_int p" "of_int p < (2::rat) powi bp"
  proof -
    have "2 ^ nat (bp - 1) \<le> p" "p < 2 ^ nat bp"
      using bitlen_bounds [OF p] by (simp_all add: bp_def)
    then have "(of_int (2 ^ nat (bp - 1))::rat) \<le> of_int p" "(of_int p::rat) < of_int (2 ^ nat bp)"
      by (simp_all only: of_int_le_iff of_int_less_iff)
    then show "(2::rat) powi (bp - 1) \<le> of_int p" "of_int p < (2::rat) powi bp"
      using bp by (simp_all add: power_int_def)
  qed
  have Q: "(2::rat) powi (bq - 1) \<le> of_int q" "of_int q < (2::rat) powi bq"
  proof -
    have "2 ^ nat (bq - 1) \<le> q" "q < 2 ^ nat bq"
      using bitlen_bounds [OF q] by (simp_all add: bq_def)
    then have "(of_int (2 ^ nat (bq - 1))::rat) \<le> of_int q" "(of_int q::rat) < of_int (2 ^ nat bq)"
      by (simp_all only: of_int_le_iff of_int_less_iff)
    then show "(2::rat) powi (bq - 1) \<le> of_int q" "of_int q < (2::rat) powi bq"
      using bq by (simp_all add: power_int_def)
  qed
  define d where "d = bp - bq"
  have qpos: "(0::rat) < of_int q" using q by simp
  have up: "\<bar>x\<bar> < 2 powi (d + 1)"
  proof -
    have "(2::rat) powi bp = 2 powi (d + 1) * 2 powi (bq - 1)"
      by (simp add: d_def power_int_add [symmetric])
    also have "\<dots> \<le> 2 powi (d + 1) * of_int q"
      using Q(1) by (simp add: mult_left_mono)
    finally have "of_int p < 2 powi (d + 1) * (of_int q::rat)"
      using P(2) by simp
    then show ?thesis
      using qpos by (simp add: x pos_divide_less_eq)
  qed
  have lo: "2 powi (d - 1) < \<bar>x\<bar>"
  proof -
    have "2 powi (d - 1) * (of_int q::rat) < 2 powi (d - 1) * 2 powi bq"
      using Q(2) by (simp add: mult_strict_left_mono)
    also have "\<dots> = 2 powi (bp - 1)"
      by (simp add: d_def power_int_add [symmetric])
    finally have "2 powi (d - 1) * (of_int q::rat) < of_int p"
      using P(1) by simp
    then show ?thesis
      using qpos by (simp add: x pos_less_divide_eq)
  qed
  have il: "ilog2 x = (if 2 powi d \<le> \<bar>x\<bar> then d else d - 1)"
    by (simp add: ilog2_def pq d_def bp_def bq_def Let_def)
  show ?thesis
  proof (cases "2 powi d \<le> \<bar>x\<bar>")
    case True
    then show ?thesis using up il by simp
  next
    case False
    then show ?thesis using lo il by simp
  qed
qed


lemma expo_minus [simp]: "expo (- x) = expo x"
  by (simp add: expo_def ilog2_def)

lemma expo_ge: "- 1022 \<le> expo x"
  by (simp add: expo_def)

lemma expo_upper: "\<bar>x\<bar> < 2 powi (expo x + 1)"
proof (cases "x = 0")
  case True
  then show ?thesis by simp
next
  case False
  then have "\<bar>x\<bar> < 2 powi (ilog2 x + 1)"
    using ilog2_bounds by blast
  also have "\<dots> \<le> 2 powi (expo x + 1)"
    using False by (intro power_int_increasing) (simp_all add: expo_def)
  finally show ?thesis .
qed

lemma expo_lower:
  assumes "- 1022 < expo x"
  shows "2 powi (expo x) \<le> \<bar>x\<bar>"
proof -
  have "x \<noteq> 0" using assms by (auto simp: expo_def)
  moreover from this have "expo x = ilog2 x"
    using assms by (auto simp: expo_def max_def split: if_splits)
  ultimately show ?thesis
    using ilog2_bounds [of x] by simp
qed

lemma fl_minus: "fl (- x) = - fl x"
  by (simp add: fl_def Let_def rne_minus)

lemma ulp_pos: "(0::rat) < 2 powi n"
  by simp

lemma fl_ge:
  assumes a: "fl a = a" and ax: "a \<le> x"
  shows "a \<le> fl x"
proof -
  define ux where "ux = (2::rat) powi (expo x - 52)"
  define ua where "ua = (2::rat) powi (expo a - 52)"
  have ux: "0 < ux" and ua: "0 < ua" by (simp_all add: ux_def ua_def)
  have flx: "fl x = of_int (rne (x / ux)) * ux"
    by (simp add: fl_def Let_def ux_def)
  consider (eq) "expo a = expo x" | (lt) "expo a < expo x" | (gt) "expo x < expo a"
    by linarith
  then show ?thesis
  proof cases
    case eq
    define m where "m = rne (a / ux)"
    have "a = of_int m * ux"
      using a by (simp add: fl_def Let_def m_def ux_def eq)
    then have "of_int m = a / ux" using ux by simp
    also have "\<dots> \<le> x / ux" using ax ux by (simp add: divide_right_mono)
    finally have "m \<le> rne (x / ux)" by (rule rne_ge)
    then have "of_int m * ux \<le> of_int (rne (x / ux)) * ux"
      using ux by (simp add: mult_right_mono)
    then show ?thesis using \<open>a = of_int m * ux\<close> flx by simp
  next
    case lt
    then have "- 1022 < expo x" using expo_ge [of a] by linarith
    then have lx: "2 powi (expo x) \<le> \<bar>x\<bar>" by (rule expo_lower)
    have "\<bar>a\<bar> < 2 powi (expo a + 1)" by (rule expo_upper)
    also have "\<dots> \<le> (2::rat) powi (expo x)"
      using lt by (intro power_int_increasing) simp_all
    finally have al: "\<bar>a\<bar> < 2 powi (expo x)" .
    then have "\<bar>a\<bar> < \<bar>x\<bar>" using lx by simp
    then have "0 < x" using ax by linarith
    then have "2 powi (expo x) \<le> x" using lx by simp
    then have "2 powi (expo x) / ux \<le> x / ux"
      using ux by (simp add: divide_right_mono)
    moreover have "2 powi (expo x) / ux = of_int (2 ^ 52)"
      by (simp add: ux_def power_int_diff)
    ultimately have "2 ^ 52 \<le> rne (x / ux)"
      by (metis rne_ge)
    then have "of_int (2 ^ 52) * ux \<le> of_int (rne (x / ux)) * ux"
      using ux by (simp only: mult_le_cancel_right_pos of_int_le_iff)
    moreover have "of_int (2 ^ 52) * ux = 2 powi (expo x)"
      by (simp add: ux_def power_int_diff)
    ultimately have "2 powi (expo x) \<le> fl x" using flx by simp
    then show ?thesis using al by linarith
  next
    case gt
    then have "- 1022 < expo a" using expo_ge [of x] by linarith
    then have la: "2 powi (expo a) \<le> \<bar>a\<bar>" by (rule expo_lower)
    have "\<bar>x\<bar> < 2 powi (expo x + 1)" by (rule expo_upper)
    moreover have le: "2 powi (expo x + 1) \<le> (2::rat) powi (expo a)"
      using gt by (intro power_int_increasing) simp_all
    ultimately have "\<bar>x\<bar> < \<bar>a\<bar>" using la by linarith
    then have "a < 0" using ax by linarith
    then have a_le: "a \<le> - (2 powi (expo x + 1))" using la le by linarith
    have "- (2 powi (expo x + 1)) \<le> x"
      using expo_upper [of x] by linarith
    then have "- (2 powi (expo x + 1)) / ux \<le> x / ux"
      using ux by (intro divide_right_mono) simp_all
    moreover have "- (2 powi (expo x + 1)) / ux = of_int (- (2 ^ 53))"
      by (simp add: ux_def power_int_diff power_int_add)
    ultimately have "- (2 ^ 53) \<le> rne (x / ux)"
      by (metis rne_ge)
    then have "of_int (- (2 ^ 53)) * ux \<le> of_int (rne (x / ux)) * ux"
      using ux by (simp only: mult_le_cancel_right_pos of_int_le_iff)
    moreover have "of_int (- (2 ^ 53)) * ux = - (2 powi (expo x + 1))"
      by (simp add: ux_def power_int_diff power_int_add)
    ultimately have "- (2 powi (expo x + 1)) \<le> fl x" using flx by simp
    then show ?thesis using a_le by linarith
  qed
qed

lemma fl_le:
  assumes "fl a = a" and "x \<le> a"
  shows "fl x \<le> a"
proof -
  have "fl (- a) = - a" using assms(1) by (simp add: fl_minus)
  moreover have "- a \<le> - x" using assms(2) by simp
  ultimately have "- a \<le> fl (- x)" by (rule fl_ge)
  then show ?thesis by (simp add: fl_minus)
qed




lemma ilog2_less:
  assumes "x \<noteq> 0" "\<bar>x\<bar> < 2 powi n"
  shows "ilog2 x < n"
proof (rule ccontr)
  assume "\<not> ilog2 x < n"
  then have "(2::rat) powi n \<le> 2 powi (ilog2 x)"
    by (intro power_int_increasing) simp_all
  then show False
    using ilog2_bounds [OF assms(1)] assms(2) by linarith
qed

lemma ilog2_ge:
  assumes "x \<noteq> 0" "2 powi n \<le> \<bar>x\<bar>"
  shows "n \<le> ilog2 x"
proof (rule ccontr)
  assume "\<not> n \<le> ilog2 x"
  then have "(2::rat) powi (ilog2 x + 1) \<le> 2 powi n"
    by (intro power_int_increasing) simp_all
  then show False
    using ilog2_bounds [OF assms(1)] assms(2) by linarith
qed

lemma fl_zero [simp]: "fl 0 = 0"
  by (simp add: fl_def rne_def)

lemma fl_exact:
  assumes m: "\<bar>m\<bar> < 2 ^ 53" and e: "- 1074 \<le> e"
  shows "fl (of_int m * 2 powi e) = of_int m * 2 powi e"
proof (cases "m = 0")
  case True
  then show ?thesis by simp
next
  case False
  define x :: rat where "x = of_int m * 2 powi e"
  have x0: "x \<noteq> 0" using False by (simp add: x_def)
  have "\<bar>x\<bar> = of_int \<bar>m\<bar> * 2 powi e"
    by (simp add: x_def abs_mult)
  also have "\<dots> < of_int (2 ^ 53) * 2 powi e"
    using m by (intro mult_strict_right_mono) (simp_all only: of_int_less_iff zero_less_power_int zero_less_numeral)
  also have "\<dots> = 2 powi (e + 53)"
    by (simp add: power_int_add)
  finally have "ilog2 x < e + 53" using x0 by (intro ilog2_less)
  then have ex: "expo x \<le> e + 52" using e x0 by (simp add: expo_def)
  define j where "j = nat (e + 52 - expo x)"
  have j: "e = expo x - 52 + int j" using ex by (simp add: j_def)
  have "x / 2 powi (expo x - 52) = of_int m * (2 powi e / 2 powi (expo x - 52))"
    by (simp add: x_def)
  also have "2 powi e / 2 powi (expo x - 52) = (2::rat) powi (int j)"
    by (subst j) (simp add: power_int_add)
  also have "of_int m * (2::rat) powi (int j) = of_int (m * 2 ^ j)"
    by simp
  finally have "rne (x / 2 powi (expo x - 52)) = m * 2 ^ j"
    by (simp only: rne_of_int)
  then have "fl x = of_int (m * 2 ^ j) * 2 powi (expo x - 52)"
    by (simp add: fl_def Let_def)
  also have "\<dots> = of_int m * ((2::rat) powi (int j) * 2 powi (expo x - 52))"
    by simp
  also have "(2::rat) powi (int j) * 2 powi (expo x - 52) = 2 powi (expo x - 52 + int j)"
    by (simp add: power_int_add)
  also have "expo x - 52 + int j = e"
    using j by simp
  finally show ?thesis by (simp add: x_def)
qed

lemma fl_of_int:
  assumes "\<bar>m\<bar> < 2 ^ 53"
  shows "fl (of_int m) = of_int m"
  using fl_exact [OF assms, of 0] by simp

lemma rne_err: "\<bar>of_int (rne y) - y\<bar> \<le> 1 / 2"
proof -
  have "of_int \<lfloor>y\<rfloor> \<le> y" "y < of_int \<lfloor>y\<rfloor> + 1"
    by linarith+
  then show ?thesis
    by (auto simp: rne_def Let_def)
qed

lemma fl_abs_err: "\<bar>fl x - x\<bar> \<le> 2 powi (expo x - 53)"
proof -
  define u :: rat where "u = 2 powi (expo x - 52)"
  have u: "0 < u" by (simp add: u_def)
  have "fl x - x = (of_int (rne (x / u)) - x / u) * u"
    using u by (simp add: fl_def Let_def u_def algebra_simps)
  then have "\<bar>fl x - x\<bar> = \<bar>of_int (rne (x / u)) - x / u\<bar> * u"
    using u by (simp add: abs_mult)
  also have "\<dots> \<le> (1 / 2) * u"
    using u rne_err [of "x / u"] by (intro mult_right_mono) simp_all
  also have "\<dots> = 2 powi (expo x - 53)"
    by (simp add: u_def power_int_diff)
  finally show ?thesis .
qed

lemma fl_rel_err:
  assumes "1 / 2 ^ 1022 \<le> \<bar>x\<bar>"
  shows "\<bar>fl x - x\<bar> \<le> \<bar>x\<bar> / 2 ^ 53"
proof -
  have x0: "x \<noteq> 0" using assms by auto
  have "(2::rat) powi (- 1022) \<le> \<bar>x\<bar>"
    using assms by (simp add: power_int_minus_divide)
  then have "- 1022 \<le> ilog2 x" using x0 by (intro ilog2_ge)
  then have "expo x = ilog2 x" using x0 by (simp add: expo_def)
  then have "2 powi (expo x) \<le> \<bar>x\<bar>" using ilog2_bounds [OF x0] by simp
  then have "2 powi (expo x) / 2 ^ 53 \<le> \<bar>x\<bar> / 2 ^ 53"
    by (simp add: divide_right_mono)
  moreover have "(2::rat) powi (expo x - 53) = 2 powi (expo x) / 2 ^ 53"
    by (simp add: power_int_diff)
  ultimately show ?thesis using fl_abs_err [of x] by simp
qed

lemma rne_near:
  assumes "\<bar>y - of_int k\<bar> < 1 / 2"
  shows "rne y = k"
proof -
  have "\<bar>of_int (rne y) - (of_int k :: rat)\<bar> < 1"
    using rne_err [of y] assms by linarith
  then have "\<bar>(of_int (rne y - k) :: rat)\<bar> < of_int 1"
    by simp
  then have "\<bar>rne y - k\<bar> < 1"
    by (simp only: of_int_abs [symmetric] of_int_less_iff)
  then show ?thesis by simp
qed


lemma fl_DBL_MAX: "fl DBL_MAX = DBL_MAX"
proof -
  have "DBL_MAX = of_int (2 ^ 53 - 1) * 2 powi 971"
    by (simp add: DBL_MAX_def)
  moreover have "fl (of_int (2 ^ 53 - 1) * 2 powi 971) = of_int (2 ^ 53 - 1) * 2 powi 971"
    by (rule fl_exact) simp_all
  ultimately show ?thesis by simp
qed


lemma rne_abs_le:
  assumes "\<bar>y\<bar> \<le> of_int n"
  shows "\<bar>rne y\<bar> \<le> n"
proof -
  have "y \<le> of_int n" "of_int (- n) \<le> y" using assms by simp_all
  then have "rne y \<le> n" "- n \<le> rne y" by (auto intro: rne_le rne_ge)
  then show ?thesis by simp
qed

lemma fl_idem: "fl (fl x) = fl x"
proof -
  define u :: rat where "u = 2 powi (expo x - 52)"
  define m where "m = rne (x / u)"
  have u: "0 < u" by (simp add: u_def)
  have flx: "fl x = of_int m * 2 powi (expo x - 52)"
    by (simp add: fl_def Let_def m_def u_def)
  have "\<bar>x\<bar> / u \<le> 2 powi (expo x + 1) / u"
    using expo_upper [of x] u by (intro divide_right_mono) simp_all
  also have "2 powi (expo x + 1) / u = of_int (2 ^ 53)"
    by (simp add: u_def power_int_diff power_int_add)
  finally have "\<bar>x / u\<bar> \<le> of_int (2 ^ 53)" using u by simp
  then have m: "\<bar>m\<bar> \<le> 2 ^ 53" unfolding m_def by (rule rne_abs_le)
  show ?thesis
  proof (cases "\<bar>m\<bar> < 2 ^ 53")
    case True
    then show ?thesis
      unfolding flx using expo_ge [of x] by (intro fl_exact) simp_all
  next
    case False
    with m have "\<bar>m\<bar> = 2 ^ 53" by simp
    then have "m = 2 ^ 53 \<or> m = - (2 ^ 53)" by linarith
    then have "m = 2 * (m div 2)" "\<bar>m div 2\<bar> < 2 ^ 53"
      by auto
    then have "of_int m * (2::rat) powi (expo x - 52) = of_int (m div 2) * 2 powi (expo x - 51)"
    proof -
      have "(2::rat) powi (expo x - 51) = 2 * 2 powi (expo x - 52)"
        by (simp add: power_int_diff)
      moreover have "(of_int m :: rat) = 2 * of_int (m div 2)"
        using \<open>m = 2 * (m div 2)\<close> by (metis of_int_mult of_int_numeral)
      ultimately show ?thesis by simp
    qed
    moreover have "fl (of_int (m div 2) * 2 powi (expo x - 51)) = of_int (m div 2) * 2 powi (expo x - 51)"
      using \<open>\<bar>m div 2\<bar> < 2 ^ 53\<close> expo_ge [of x] by (intro fl_exact) simp_all
    ultimately show ?thesis unfolding flx by simp
  qed
qed

lemma rne_mono:
  assumes "a \<le> b"
  shows "rne a \<le> rne b"
proof (cases "\<lfloor>a\<rfloor> = \<lfloor>b\<rfloor>")
  case True
  have "a - of_int \<lfloor>a\<rfloor> \<le> b - of_int \<lfloor>a\<rfloor>" using assms by simp
  then show ?thesis
    unfolding rne_def Let_def True [symmetric] by auto
next
  case False
  moreover have "\<lfloor>a\<rfloor> \<le> \<lfloor>b\<rfloor>" using assms by (rule floor_mono)
  ultimately have "\<lfloor>a\<rfloor> + 1 \<le> \<lfloor>b\<rfloor>" by linarith
  then show ?thesis
    using rne_floor [of a] rne_floor [of b] by linarith
qed

lemma fl_pow2: "- 1074 \<le> e \<Longrightarrow> fl (2 powi e) = 2 powi e"
  using fl_exact [of 1 e] by simp

lemma fl_mono:
  assumes "x \<le> y"
  shows "fl x \<le> fl y"
proof -
  consider (eq) "expo x = expo y" | (lt) "expo x < expo y" | (gt) "expo y < expo x"
    by linarith
  then show ?thesis
  proof cases
    case eq
    define u :: rat where "u = 2 powi (expo y - 52)"
    have u: "0 < u" by (simp add: u_def)
    have "x / u \<le> y / u" using assms u by (simp add: divide_right_mono)
    then have "rne (x / u) \<le> rne (y / u)" by (rule rne_mono)
    then have "of_int (rne (x / u)) * u \<le> of_int (rne (y / u)) * u"
      using u by (simp only: mult_le_cancel_right_pos of_int_le_iff)
    then show ?thesis by (simp add: fl_def Let_def eq u_def)
  next
    case lt
    then have "- 1022 < expo y" using expo_ge [of x] by linarith
    then have ly: "2 powi (expo y) \<le> \<bar>y\<bar>" by (rule expo_lower)
    have "\<bar>x\<bar> < 2 powi (expo x + 1)" by (rule expo_upper)
    also have "\<dots> \<le> (2::rat) powi (expo y)"
      using lt by (intro power_int_increasing) simp_all
    finally have xl: "\<bar>x\<bar> < 2 powi (expo y)" .
    then have "0 < y" using ly assms by linarith
    then have "2 powi (expo y) \<le> y" using ly by simp
    moreover have "x \<le> 2 powi (expo y)" using xl by linarith
    moreover have "fl (2 powi (expo y)) = 2 powi (expo y)"
      using expo_ge [of y] by (intro fl_pow2) simp
    ultimately have "fl x \<le> 2 powi (expo y)" "2 powi (expo y) \<le> fl y"
      by (auto intro: fl_le fl_ge)
    then show ?thesis by linarith
  next
    case gt
    then have "- 1022 < expo x" using expo_ge [of y] by linarith
    then have lx: "2 powi (expo x) \<le> \<bar>x\<bar>" by (rule expo_lower)
    have "\<bar>y\<bar> < 2 powi (expo y + 1)" by (rule expo_upper)
    also have "\<dots> \<le> (2::rat) powi (expo x)"
      using gt by (intro power_int_increasing) simp_all
    finally have yl: "\<bar>y\<bar> < 2 powi (expo x)" .
    then have "x < 0" using lx assms by linarith
    then have "x \<le> - (2 powi (expo x))" using lx by simp
    moreover have "- (2 powi (expo x)) \<le> y" using yl by linarith
    moreover have "fl (- (2 powi (expo x))) = - (2 powi (expo x))"
      using expo_ge [of x] by (simp add: fl_minus fl_pow2)
    ultimately have "fl x \<le> - (2 powi (expo x))" "- (2 powi (expo x)) \<le> fl y"
      by (auto intro: fl_le fl_ge)
    then show ?thesis by linarith
  qed
qed

lemma DBL_MAX_big: "2 ^ 971 \<le> DBL_MAX"
proof -
  have "(1::rat) * 2 ^ 971 \<le> (2 ^ 53 - 1) * 2 ^ 971"
    by (intro mult_right_mono) simp_all
  then show ?thesis by (simp add: DBL_MAX_def)
qed

lemma small_le_DBL_MAX: "x \<le> 2 ^ 53 \<Longrightarrow> x \<le> DBL_MAX"
proof -
  have "(2::rat) ^ 53 \<le> 2 ^ 971" by (intro power_increasing) simp_all
  then show "x \<le> 2 ^ 53 \<Longrightarrow> x \<le> DBL_MAX" using DBL_MAX_big by linarith
qed

lemma dbl_Some: "\<bar>x\<bar> \<le> DBL_MAX \<Longrightarrow> dbl x = Some (fl x)"
proof -
  assume a: "\<bar>x\<bar> \<le> DBL_MAX"
  have "fl x \<le> DBL_MAX" using a by (intro fl_le fl_DBL_MAX) simp
  moreover have "fl (- DBL_MAX) = - DBL_MAX" by (simp add: fl_minus fl_DBL_MAX)
  then have "- DBL_MAX \<le> fl x" using a by (intro fl_ge) simp_all
  ultimately show ?thesis by (simp add: dbl_def)
qed

lemma dbl_SomeD: "dbl x = Some y \<Longrightarrow> y = fl x \<and> \<bar>y\<bar> \<le> DBL_MAX \<and> fl y = y"
  by (auto simp: dbl_def fl_idem split: if_splits)


lemma dbl_of_int:
  assumes "\<bar>m\<bar> < 2 ^ 53"
  shows "dbl (of_int m) = Some (of_int m)"
proof -
  have "\<bar>(of_int m :: rat)\<bar> \<le> 2 ^ 53"
    using assms by (metis of_int_abs of_int_less_iff of_int_numeral of_int_power less_imp_le)
  then have "\<bar>(of_int m :: rat)\<bar> \<le> DBL_MAX" by (rule small_le_DBL_MAX)
  then show ?thesis using fl_of_int [OF assms] by (simp add: dbl_Some)
qed

lemma is_double_of_int:
  assumes "\<bar>m\<bar> < 2 ^ 53"
  shows "is_double (of_int m)"
  using dbl_of_int [OF assms] fl_of_int [OF assms] by (auto simp: is_double_def dbl_def split: if_splits)

lemma dbl_between:
  assumes "is_double lo" "is_double hi" "lo \<le> x" "x \<le> hi"
  shows "dbl x = Some (fl x) \<and> lo \<le> fl x \<and> fl x \<le> hi"
proof -
  have "fl lo \<le> fl x" "fl x \<le> fl hi" using assms(3,4) by (auto intro: fl_mono)
  then have "lo \<le> fl x" "fl x \<le> hi" using assms(1,2) by (simp_all add: is_double_def)
  moreover from this have "\<bar>fl x\<bar> \<le> DBL_MAX"
    using assms(1,2) by (auto simp: is_double_def)
  ultimately show ?thesis by (simp add: dbl_def)
qed

lemma is_double_0 [simp]: "is_double 0"
  using is_double_of_int [of 0] by simp

lemma is_double_1 [simp]: "is_double 1"
  using is_double_of_int [of 1] by simp

lemma is_double_numeral:
  "(numeral k :: int) < 2 ^ 53 \<Longrightarrow> is_double (numeral k)"
  using is_double_of_int [of "numeral k"] by simp

lemma randomDouble_unit:
  assumes "0 < rm" "rm \<le> INT_MAX" "0 \<le> r" "r \<le> rm"
  shows "\<exists>t. d_div (d_of_int r) (d_of_int rm) = Some t \<and> 0 \<le> t \<and> t \<le> 1 \<and> (r = rm \<longrightarrow> t = 1)"
proof -
  let ?q = "(of_int r :: rat) / of_int rm"
  have "0 \<le> ?q" "?q \<le> 1" using assms by (simp_all add: divide_le_eq_1)
  then have "dbl ?q = Some (fl ?q) \<and> 0 \<le> fl ?q \<and> fl ?q \<le> 1"
    by (intro dbl_between) simp_all
  moreover have "r = rm \<longrightarrow> fl ?q = 1"
    using assms(1) fl_of_int [of 1] by auto
  ultimately show ?thesis
    using assms(1) by (simp add: d_div_def d_of_int_def)
qed

lemma randomDouble_val_range:
  assumes lo: "is_double lo" and hi: "is_double hi" and lt: "lo < hi"
    and rm: "0 < rm" "rm \<le> INT_MAX" and r: "0 \<le> r" "r \<le> rm"
    and d: "d_sub hi lo = Some d" and rt: "d_add lo d = Some hi"
  shows "\<exists>v. randomDouble_val rm lo hi r = Some v \<and> lo \<le> v \<and> v \<le> hi \<and> (r = rm \<longrightarrow> v = hi)"
proof -
  obtain t where t: "d_div (d_of_int r) (d_of_int rm) = Some t" "0 \<le> t" "t \<le> 1" "r = rm \<longrightarrow> t = 1"
    using randomDouble_unit [OF rm r] by blast
  have "dbl (hi - lo) = Some d" using d by (simp add: d_sub_def)
  then have "d = fl (hi - lo) \<and> \<bar>d\<bar> \<le> DBL_MAX \<and> fl d = d" by (rule dbl_SomeD)
  then have dd: "d = fl (hi - lo)" "\<bar>d\<bar> \<le> DBL_MAX" "fl d = d" by blast+
  have "fl 0 \<le> fl (hi - lo)" using lt by (intro fl_mono) simp
  then have d0: "0 \<le> d" using dd(1) by simp
  have isd: "is_double d" using dd by (simp add: is_double_def)
  have "0 \<le> t * d" "t * d \<le> d"
    using t d0 by (simp_all add: mult_left_le_one_le)
  then have p: "dbl (t * d) = Some (fl (t * d))" "0 \<le> fl (t * d)" "fl (t * d) \<le> d"
    using dbl_between [OF is_double_0 isd, of "t * d"] by simp_all
  define p where "p = fl (t * d)"
  have "dbl (lo + d) = Some hi" using rt by (simp add: d_add_def)
  then have "hi = fl (lo + d) \<and> \<bar>hi\<bar> \<le> DBL_MAX \<and> fl hi = hi" by (rule dbl_SomeD)
  then have hi_eq: "hi = fl (lo + d)" by blast
  have "fl lo \<le> fl (lo + p)" "fl (lo + p) \<le> fl (lo + d)"
    using p(2,3) by (auto intro!: fl_mono simp: p_def)
  then have v: "lo \<le> fl (lo + p)" "fl (lo + p) \<le> hi"
    using lo hi_eq by (simp_all add: is_double_def)
  then have "\<bar>fl (lo + p)\<bar> \<le> DBL_MAX"
    using lo hi by (auto simp: is_double_def)
  then have s: "dbl (lo + p) = Some (fl (lo + p))" by (simp add: dbl_def)
  have val: "randomDouble_val rm lo hi r = Some (fl (lo + p))"
    by (simp add: randomDouble_val_def t(1) d d_mul_def p(1) d_add_def s [unfolded p_def] p_def)
  have "r = rm \<longrightarrow> fl (lo + p) = hi"
    using t(4) dd(3) hi_eq by (auto simp: p_def)
  then show ?thesis using val v by simp
qed


lemma dbl_numeral:
  "(numeral k :: int) < 2 ^ 53 \<Longrightarrow> dbl (numeral k) = Some (numeral k)"
  using dbl_of_int [of "numeral k"] by simp

lemma is_double_half:
  assumes "\<bar>m\<bar> < 2 ^ 53"
  shows "is_double (of_int m / 2)"
proof -
  have e: "(of_int m :: rat) / 2 = of_int m * 2 powi (- 1)"
    by (simp add: power_int_minus_divide)
  have "fl (of_int m * 2 powi (- 1)) = of_int m * 2 powi (- 1)"
    using assms by (intro fl_exact) simp_all
  then have "fl (of_int m / 2) = of_int m / 2" by (simp only: e)
  moreover have "\<bar>(of_int m :: rat)\<bar> \<le> 2 ^ 53"
    using assms by (metis of_int_abs of_int_less_iff of_int_numeral of_int_power less_imp_le)
  then have "\<bar>(of_int m :: rat) / 2\<bar> \<le> 2 ^ 53" by simp
  then have "\<bar>(of_int m :: rat) / 2\<bar> \<le> DBL_MAX" by (rule small_le_DBL_MAX)
  ultimately show ?thesis by (simp add: is_double_def)
qed

subsection \<open>\<open>lam_tron\<close> and the printed decimals\<close>

lemma c_round_between:
  assumes "of_int a \<le> y" "y \<le> of_int b"
  shows "\<exists>k. c_round y = of_int k \<and> a \<le> k \<and> k \<le> b"
proof (cases "0 \<le> y")
  case True
  have "of_int a \<le> y + 1 / 2" using assms(1) by simp
  then have "a \<le> \<lfloor>y + 1 / 2\<rfloor>" by (simp only: le_floor_iff)
  moreover have "y + 1 / 2 < of_int (b + 1)" using assms(2) by simp
  then have "\<lfloor>y + 1 / 2\<rfloor> < b + 1" by (simp only: floor_less_iff)
  ultimately show ?thesis using True by (auto simp: c_round_def)
next
  case False
  have "of_int (- b) \<le> - y + 1 / 2" using assms(2) by simp
  then have "- b \<le> \<lfloor>- y + 1 / 2\<rfloor>" by (simp only: le_floor_iff)
  moreover have "- y + 1 / 2 < of_int (- a + 1)" using assms(1) by simp
  then have "\<lfloor>- y + 1 / 2\<rfloor> < - a + 1" by (simp only: floor_less_iff)
  ultimately have "c_round y = of_int (- \<lfloor>- y + 1 / 2\<rfloor>) \<and> a \<le> - \<lfloor>- y + 1 / 2\<rfloor> \<and> - \<lfloor>- y + 1 / 2\<rfloor> \<le> b"
    using False by (simp add: c_round_def)
  then show ?thesis by blast
qed

lemma of_int_small:
  assumes "\<bar>m\<bar> < 2 ^ 53"
  shows "\<bar>(of_int m :: rat)\<bar> \<le> 2 ^ 53"
  using assms by (metis of_int_abs of_int_less_iff of_int_numeral of_int_power less_imp_le)

lemma lam_tron_range:
  assumes "of_int a \<le> v * 10" "v * 10 \<le> of_int b" "\<bar>a\<bar> < 2 ^ 53" "\<bar>b\<bar> < 2 ^ 53"
  shows "\<exists>k. a \<le> k \<and> k \<le> b \<and> lam_tron v = Some (fl (of_int k / 10))"
proof -
  have y: "dbl (v * 10) = Some (fl (v * 10)) \<and> of_int a \<le> fl (v * 10) \<and> fl (v * 10) \<le> of_int b"
    using assms by (intro dbl_between is_double_of_int)
  then obtain k where k: "c_round (fl (v * 10)) = of_int k" "a \<le> k" "k \<le> b"
    using c_round_between [of a "fl (v * 10)" b] by blast
  have "\<bar>k\<bar> < 2 ^ 53" using k(2,3) assms(3,4) by linarith
  then have "\<bar>(of_int k :: rat)\<bar> \<le> 2 ^ 53" by (rule of_int_small)
  then have "\<bar>(of_int k :: rat) / 10\<bar> \<le> 2 ^ 53" by simp
  then have "\<bar>(of_int k :: rat) / 10\<bar> \<le> DBL_MAX" by (rule small_le_DBL_MAX)
  then have "dbl (of_int k / 10) = Some (fl (of_int k / 10))" by (rule dbl_Some)
  then have "lam_tron v = Some (fl (of_int k / 10))"
    using y k(1) by (simp add: lam_tron_def d_mul_def d_div_def)
  then show ?thesis using k(2,3) by blast
qed

lemma tiny_le: "(1::rat) / 2 ^ 1022 \<le> 1 / 10"
proof -
  have "(2::rat) ^ 4 \<le> 2 ^ 1022" by (intro power_increasing) simp_all
  then have "(10::rat) \<le> 2 ^ 1022" by simp
  then show ?thesis by (simp add: field_simps)
qed

lemma tenth_err:
  "\<bar>fl (of_int k / 10) - of_int k / 10\<bar> \<le> \<bar>of_int k\<bar> / 10 / 2 ^ 53"
proof (cases "k = 0")
  case True
  then show ?thesis by simp
next
  case False
  then have "1 \<le> \<bar>k\<bar>" by simp
  then have "(1::rat) \<le> \<bar>of_int k\<bar>"
    by (metis of_int_abs of_int_le_iff of_int_1)
  then have "(1::rat) / 10 \<le> \<bar>of_int k / 10\<bar>" by simp
  then have "1 / 2 ^ 1022 \<le> \<bar>(of_int k :: rat) / 10\<bar>" using tiny_le by linarith
  then have "\<bar>fl (of_int k / 10) - of_int k / 10\<bar> \<le> \<bar>of_int k / 10\<bar> / 2 ^ 53"
    by (rule fl_rel_err)
  then show ?thesis by simp
qed

lemma fixed_units_tenth:
  assumes "\<bar>k\<bar> < 2 ^ 52"
  shows "fixed_units 1 (fl (of_int k / 10)) = k"
proof -
  define q :: rat where "q = fl (of_int k / 10)"
  have "\<bar>(of_int k :: rat)\<bar> < 2 ^ 52"
    using assms by (metis of_int_abs of_int_less_iff of_int_numeral of_int_power)
  then have "\<bar>of_int k\<bar> / 10 / 2 ^ 53 < (1::rat) / 20" by simp
  then have "\<bar>q - of_int k / 10\<bar> < 1 / 20"
    using tenth_err [of k] by (simp add: q_def)
  then have "\<bar>q * 10 - of_int k\<bar> < 1 / 2"
    by (simp add: abs_if split: if_splits)
  then have "rne (q * 10) = k" by (rule rne_near)
  then show ?thesis by (simp add: fixed_units_def q_def)
qed

lemma tenth_between:
  assumes "a \<le> k" "k \<le> b" "is_double (of_int a / 10)" "is_double (of_int b / 10)"
  shows "of_int a / 10 \<le> fl (of_int k / 10) \<and> fl (of_int k / 10) \<le> of_int b / 10"
proof -
  have "(of_int a :: rat) / 10 \<le> of_int k / 10" "(of_int k :: rat) / 10 \<le> of_int b / 10"
    using assms(1,2) by simp_all
  then show ?thesis
    using dbl_between [OF assms(3,4)] by blast
qed

lemma fare_exact:
  assumes "0 \<le> k" "k \<le> 120"
  shows "\<exists>f. d_mul (fl (of_int k / 10)) 12000 = Some f \<and> fixed_units 0 f = 1200 * k"
proof -
  define q :: rat where "q = fl (of_int k / 10)"
  have kr: "(0::rat) \<le> of_int k" "(of_int k :: rat) \<le> 120"
    using assms by simp_all
  have e1: "\<bar>q - of_int k / 10\<bar> \<le> 12 / 2 ^ 53"
  proof -
    have "\<bar>of_int k\<bar> / 10 / 2 ^ 53 \<le> (12::rat) / 2 ^ 53" using kr by simp
    then show ?thesis using tenth_err [of k] by (simp add: q_def)
  qed
  have "is_double (of_int 0 / 10)" "is_double (of_int 120 / 10)"
    by (simp_all add: is_double_numeral)
  then have qb: "0 \<le> q" "q \<le> 12"
    using tenth_between [OF assms, of ] by (simp_all add: q_def)
  define p where "p = q * 12000"
  have pb: "0 \<le> p" "p \<le> 144000" using qb by (simp_all add: p_def)
  have "is_double 144000" by (simp add: is_double_numeral)
  then have d: "dbl p = Some (fl p)"
    using dbl_between [OF is_double_0 _ pb] by simp
  have e2: "\<bar>fl p - p\<bar> \<le> 144000 / 2 ^ 53"
  proof (cases "p = 0")
    case True
    then show ?thesis by simp
  next
    case False
    then have "q \<noteq> 0" by (auto simp: p_def)
    then have "k \<noteq> 0" by (auto simp: q_def)
    then have "1 \<le> k" using assms(1) by simp
    have "fl (1 / 16) \<le> fl (of_int k / 10)"
    proof (rule fl_mono)
      have "(1::rat) \<le> of_int k" using \<open>1 \<le> k\<close> by simp
      then show "(1::rat) / 16 \<le> of_int k / 10" by simp
    qed
    moreover have "fl (1 / 16) = 1 / 16"
      using fl_exact [of 1 "- 4"] by (simp add: power_int_minus_divide)
    ultimately have "1 / 16 \<le> q" by (simp add: q_def)
    then have "1 \<le> p" by (simp add: p_def)
    moreover have "(1::rat) / 2 ^ 1022 \<le> 1" by simp
    ultimately have "1 / 2 ^ 1022 \<le> \<bar>p\<bar>" by linarith
    then have "\<bar>fl p - p\<bar> \<le> \<bar>p\<bar> / 2 ^ 53" by (rule fl_rel_err)
    also have "\<dots> \<le> 144000 / 2 ^ 53"
      using pb by (simp add: divide_right_mono)
    finally show ?thesis .
  qed
  have "p - 1200 * of_int k = 12000 * (q - of_int k / 10)"
    by (simp add: p_def algebra_simps)
  then have "\<bar>p - 1200 * of_int k\<bar> = \<bar>12000\<bar> * \<bar>q - of_int k / 10\<bar>"
    by (simp only: abs_mult)
  then have "\<bar>p - 1200 * of_int k\<bar> = 12000 * \<bar>q - of_int k / 10\<bar>"
    by simp
  then have e3: "\<bar>p - 1200 * of_int k\<bar> \<le> 144000 / 2 ^ 53"
    using e1 by simp
  have "\<bar>fl p - of_int (1200 * k)\<bar> \<le> \<bar>fl p - p\<bar> + \<bar>p - 1200 * of_int k\<bar>"
    by simp
  also have "\<dots> \<le> 288000 / 2 ^ 53" using e2 e3 by simp
  also have "\<dots> < 1 / 2" by simp
  finally have "rne (fl p) = 1200 * k" by (rule rne_near)
  then show ?thesis
    using d by (simp add: d_mul_def fixed_units_def p_def q_def)
qed

subsection \<open>Stepping through the generators\<close>

lemma bnd_assoc: "bnd (bnd m f) g = bnd m (\<lambda>v. bnd (f v) g)"
  by (rule ext, rule ext) (simp add: bnd_def split: option.splits)

lemma bnd_ret: "bnd (ret v) f = f v"
  by (rule ext, rule ext) (simp add: bnd_def ret_def)

lemma bnd_lift_Some: "bnd (lift (Some v)) f = f v"
  by (rule ext, rule ext) (simp add: bnd_def lift_def)

lemma bnd_rand: "bnd rand K e s = K (rand_seq e (seed s) (drawn s)) e (s\<lparr>drawn := Suc (drawn s)\<rparr>)"
  by (simp add: bnd_def rand_def)

lemma valid_env_draw:
  assumes "valid_env e"
  shows "0 \<le> rand_seq e sd n" "rand_seq e sd n \<le> RAND_MAX e" "0 < RAND_MAX e" "RAND_MAX e \<le> INT_MAX"
  using assms by (auto simp: valid_env_def)

lemma randomInt_step:
  assumes "valid_env e" "INT_MIN \<le> lo" "lo \<le> hi" "hi \<le> INT_MAX" "hi - lo < INT_MAX"
  shows "\<exists>v. lo \<le> v \<and> v \<le> hi \<and> randomInt_val lo hi (rand_seq e (seed s) (drawn s)) = Some v \<and>
    (\<forall>K :: int \<Rightarrow> 'r io. bnd (randomInt lo hi) K e s = K v e (s\<lparr>drawn := Suc (drawn s)\<rparr>))"
proof -
  obtain v where v: "randomInt_val lo hi (rand_seq e (seed s) (drawn s)) = Some v" "lo \<le> v" "v \<le> hi"
    using randomInt_val_range [OF assms(2-5) valid_env_draw(1) [OF assms(1)]] by blast
  have "\<forall>K :: int \<Rightarrow> 'r io. bnd (randomInt lo hi) K e s = K v e (s\<lparr>drawn := Suc (drawn s)\<rparr>)"
    by (simp add: randomInt_def bnd_assoc bnd_rand v(1) bnd_lift_Some)
  then show ?thesis using v by blast
qed

lemma rounded_draw_step:
  assumes "valid_env e" "is_double lo" "is_double hi" "lo < hi"
    and "d_sub hi lo = Some d" "d_add lo d = Some hi"
    and "of_int a = lo * 10" "of_int b = hi * 10" "\<bar>a\<bar> < 2 ^ 53" "\<bar>b\<bar> < 2 ^ 53"
  shows "\<exists>k. a \<le> k \<and> k \<le> b \<and>
    (\<forall>K :: rat \<Rightarrow> 'r io. bnd (randomDouble lo hi) (\<lambda>v. bnd (lift (lam_tron v)) K) e s =
      K (fl (of_int k / 10)) e (s\<lparr>drawn := Suc (drawn s)\<rparr>))"
proof -
  let ?r = "rand_seq e (seed s) (drawn s)"
  obtain v where v: "randomDouble_val (RAND_MAX e) lo hi ?r = Some v" "lo \<le> v" "v \<le> hi"
    using randomDouble_val_range [OF assms(2-4) valid_env_draw(3,4) [OF assms(1)]
      valid_env_draw(1,2) [OF assms(1)] assms(5,6)] by blast
  have "of_int a \<le> v * 10" "v * 10 \<le> of_int b"
    using v(2,3) assms(7,8) by simp_all
  then obtain k where k: "a \<le> k" "k \<le> b" "lam_tron v = Some (fl (of_int k / 10))"
    using lam_tron_range [OF _ _ assms(9,10)] by blast
  have "\<forall>K :: rat \<Rightarrow> 'r io. bnd (randomDouble lo hi) (\<lambda>v. bnd (lift (lam_tron v)) K) e s =
      K (fl (of_int k / 10)) e (s\<lparr>drawn := Suc (drawn s)\<rparr>)"
    by (simp add: randomDouble_def bnd_assoc bnd_rand) (simp add: bnd_def lift_def v(1) k(3))
  then show ?thesis using k(1,2) by blast
qed


lemma dbl_is_double: "is_double v \<Longrightarrow> dbl v = Some v"
  by (simp add: is_double_def dbl_def)

lemma coord_step:
  assumes "valid_env e"
  shows "\<exists>k. 0 \<le> k \<and> k \<le> 100 \<and>
    (\<forall>K :: rat \<Rightarrow> 'r io. bnd (randomDouble 0 10) (\<lambda>v. bnd (lift (lam_tron v)) K) e s =
      K (fl (of_int k / 10)) e (s\<lparr>drawn := Suc (drawn s)\<rparr>))"
proof -
  have "is_double 0" "is_double 10" "(0::rat) < 10" "d_sub 10 0 = Some 10" "d_add 0 10 = Some 10"
    "of_int 0 = (0::rat) * 10" "of_int 100 = (10::rat) * 10" "\<bar>0::int\<bar> < 2 ^ 53" "\<bar>100::int\<bar> < 2 ^ 53"
    by (simp_all add: is_double_numeral d_sub_def d_add_def dbl_numeral)
  then show ?thesis
    using rounded_draw_step [OF assms, of 0 10 10 0 100 s] by simp
qed

lemma rating_step:
  assumes "valid_env e"
  shows "\<exists>k. 35 \<le> k \<and> k \<le> 50 \<and>
    (\<forall>K :: rat \<Rightarrow> 'r io. bnd (randomDouble (7 / 2) 5) (\<lambda>v. bnd (lift (lam_tron v)) K) e s =
      K (fl (of_int k / 10)) e (s\<lparr>drawn := Suc (drawn s)\<rparr>))"
proof -
  have h: "is_double (7 / 2)" "is_double (3 / 2)"
    using is_double_half [of 7] is_double_half [of 3] by simp_all
  have "is_double 5" "(7::rat) / 2 < 5" "d_sub 5 (7 / 2) = Some (3 / 2)" "d_add (7 / 2) (3 / 2) = Some 5"
    "of_int 35 = (7::rat) / 2 * 10" "of_int 50 = (5::rat) * 10" "\<bar>35::int\<bar> < 2 ^ 53" "\<bar>50::int\<bar> < 2 ^ 53"
    using h(2) by (simp_all add: is_double_numeral d_sub_def d_add_def dbl_numeral dbl_is_double)
  then show ?thesis
    using rounded_draw_step [OF assms h(1), of 5 "3 / 2" 35 50 s] by simp
qed

lemma dist_step:
  assumes "valid_env e"
  shows "\<exists>k. 20 \<le> k \<and> k \<le> 120 \<and>
    (\<forall>K :: rat \<Rightarrow> 'r io. bnd (randomDouble 2 12) (\<lambda>v. bnd (lift (lam_tron v)) K) e s =
      K (fl (of_int k / 10)) e (s\<lparr>drawn := Suc (drawn s)\<rparr>))"
proof -
  have "is_double 2" "is_double 12" "(2::rat) < 12" "d_sub 12 2 = Some 10" "d_add 2 10 = Some 12"
    "of_int 20 = (2::rat) * 10" "of_int 120 = (12::rat) * 10" "\<bar>20::int\<bar> < 2 ^ 53" "\<bar>120::int\<bar> < 2 ^ 53"
    by (simp_all add: is_double_numeral d_sub_def d_add_def dbl_numeral)
  then show ?thesis
    using rounded_draw_step [OF assms, of 2 12 10 20 120 s] by simp
qed

lemma elem_at_in:
  assumes "0 \<le> i" "i \<le> int (length xs) - 1"
  shows "\<exists>v. elem_at xs i = Some v \<and> v \<in> set xs"
  using assms by (auto simp: elem_at_def)

lemma no_nl_append [simp]: "no_nl (a @ b) \<longleftrightarrow> no_nl a \<and> no_nl b"
  by (auto simp: no_nl_def)

lemma no_nl_tables:
  "\<forall>v\<in>set HO. no_nl v" "\<forall>v\<in>set TEN_DEM. no_nl v" "\<forall>v\<in>set TEN. no_nl v"
  "\<forall>v\<in>set QUAN. no_nl v"
  by (simp_all add: HO_def TEN_DEM_def TEN_def QUAN_def no_nl_def)

lemma table_length: "length HO = 10" "length TEN_DEM = 10" "length TEN = 20" "length QUAN = 10"
  by (simp_all add: HO_def TEN_DEM_def TEN_def QUAN_def)

lemma sinh_ten_step:
  assumes "valid_env e"
  shows "\<exists>n. no_nl n \<and>
    (\<forall>K :: string \<Rightarrow> 'r io. bnd sinh_ten K e s = K n e (s\<lparr>drawn := Suc (Suc (Suc (drawn s)))\<rparr>))"
proof -
  define s1 where "s1 = s\<lparr>drawn := Suc (drawn s)\<rparr>"
  define s2 where "s2 = s1\<lparr>drawn := Suc (drawn s1)\<rparr>"
  have rng: "INT_MIN \<le> 0" "(0::int) \<le> 9" "9 \<le> INT_MAX" "9 - 0 < INT_MAX"
    "(0::int) \<le> 19" "19 \<le> INT_MAX" "19 - 0 < INT_MAX"
    by (simp_all add: INT_MIN_def INT_MAX_def)
  obtain a where a: "0 \<le> a" "a \<le> 9"
      and a': "\<And>K :: int \<Rightarrow> 'r io. bnd (randomInt 0 9) K e s = K a e s1"
    using randomInt_step [OF assms rng(1-4), of s] unfolding s1_def by blast
  obtain b where b: "0 \<le> b" "b \<le> 9"
      and b': "\<And>K :: int \<Rightarrow> 'r io. bnd (randomInt 0 9) K e s1 = K b e s2"
    using randomInt_step [OF assms rng(1-4), of s1] unfolding s2_def by blast
  obtain c where c: "0 \<le> c" "c \<le> 19"
      and c': "\<And>K :: int \<Rightarrow> 'r io. bnd (randomInt 0 19) K e s2 = K c e (s2\<lparr>drawn := Suc (drawn s2)\<rparr>)"
    using randomInt_step [OF assms rng(1,5-7), of s2] by blast
  obtain ho where ho: "elem_at HO a = Some ho" "ho \<in> set HO"
    using elem_at_in [of a HO] a by (auto simp: table_length)
  obtain dem where dem: "elem_at TEN_DEM b = Some dem" "dem \<in> set TEN_DEM"
    using elem_at_in [of b TEN_DEM] b by (auto simp: table_length)
  obtain ten where ten: "elem_at TEN c = Some ten" "ten \<in> set TEN"
    using elem_at_in [of c TEN] c by (auto simp: table_length)
  have "no_nl ho" "no_nl dem" "no_nl ten"
    using ho(2) dem(2) ten(2) no_nl_tables by blast+
  then have "no_nl (ho @ '' '' @ dem @ '' '' @ ten)"
    by (simp add: no_nl_def)
  moreover have "\<forall>K :: string \<Rightarrow> 'r io. bnd sinh_ten K e s =
      K (ho @ '' '' @ dem @ '' '' @ ten) e (s\<lparr>drawn := Suc (Suc (Suc (drawn s)))\<rparr>)"
    by (simp add: sinh_ten_def bnd_assoc a' b' c' ho(1) dem(1) ten(1) bnd_lift_Some bnd_ret)
      (simp add: s1_def s2_def)
  ultimately show ?thesis by blast
qed

lemma stamp_offset_ok:
  assumes "- 24855 \<le> d" "d \<le> 24854" "0 \<le> h" "h \<le> 23"
  shows "stamp_offset d h = Some (d * 86400 + h * 3600)"
  using assms by (simp add: stamp_offset_def int_chk_def INT_MIN_def INT_MAX_def)

lemma sinh_timestamp_step:
  assumes "valid_env e" "- 24855 \<le> d" "d \<le> 24854"
  shows "\<exists>h. 0 \<le> h \<and> h \<le> 23 \<and>
    randomInt_val 0 23 (rand_seq e (seed s) (drawn s)) = Some h \<and>
    (\<forall>K :: string \<Rightarrow> 'r io. bnd (sinh_timestamp d) K e s =
      K (format_tm (localtime e (clock e (clock_reads s) - (d * 86400 + h * 3600)))) e
        (s\<lparr>clock_reads := Suc (clock_reads s), drawn := Suc (drawn s)\<rparr>))"
proof -
  define s1 where "s1 = s\<lparr>clock_reads := Suc (clock_reads s)\<rparr>"
  have t: "\<And>K :: int \<Rightarrow> 'r io. bnd c_time K e s = K (clock e (clock_reads s)) e s1"
    by (simp add: bnd_def c_time_def s1_def)
  have rng: "INT_MIN \<le> 0" "(0::int) \<le> 23" "23 \<le> INT_MAX" "23 - 0 < INT_MAX"
    by (simp_all add: INT_MIN_def INT_MAX_def)
  obtain h where h: "0 \<le> h" "h \<le> 23" "randomInt_val 0 23 (rand_seq e (seed s1) (drawn s1)) = Some h"
      and h': "\<And>K :: int \<Rightarrow> 'r io. bnd (randomInt 0 23) K e s1 = K h e (s1\<lparr>drawn := Suc (drawn s1)\<rparr>)"
    using randomInt_step [OF assms(1) rng, of s1] by blast
  have o: "stamp_offset d h = Some (d * 86400 + h * 3600)"
    using assms(2,3) h(1,2) by (rule stamp_offset_ok)
  have "\<forall>K :: string \<Rightarrow> 'r io. bnd (sinh_timestamp d) K e s =
      K (format_tm (localtime e (clock e (clock_reads s) - (d * 86400 + h * 3600)))) e
        (s\<lparr>clock_reads := Suc (clock_reads s), drawn := Suc (drawn s)\<rparr>)"
    by (simp add: sinh_timestamp_def bnd_assoc t h' o bnd_lift_Some)
      (simp add: bnd_def ret_def s1_def)
  then show ?thesis using h(1-3) by (auto simp: s1_def)
qed


lemma driver_fields_eq:
  assumes "valid_env e"
  shows "\<exists>n k1 k2 k3 t. driver_fields e s =
      Some (\<lparr>dname = n, rating = fl (of_int k1 / 10), dx = fl (of_int k2 / 10),
              dy = fl (of_int k3 / 10), total_rides = t\<rparr>, s\<lparr>drawn := drawn s + 7\<rparr>) \<and>
    no_nl n \<and> 35 \<le> k1 \<and> k1 \<le> 50 \<and> 0 \<le> k2 \<and> k2 \<le> 100 \<and> 0 \<le> k3 \<and> k3 \<le> 100 \<and>
    10 \<le> t \<and> t \<le> 80"
proof -
  define s1 where "s1 = s\<lparr>drawn := Suc (Suc (Suc (drawn s)))\<rparr>"
  define s2 where "s2 = s1\<lparr>drawn := Suc (drawn s1)\<rparr>"
  define s3 where "s3 = s2\<lparr>drawn := Suc (drawn s2)\<rparr>"
  define s4 where "s4 = s3\<lparr>drawn := Suc (drawn s3)\<rparr>"
  obtain n where n: "no_nl n"
      and n': "\<And>K :: string \<Rightarrow> driver io. bnd sinh_ten K e s = K n e s1"
    using sinh_ten_step [OF assms, of s] unfolding s1_def by blast
  obtain k1 where k1: "35 \<le> k1" "k1 \<le> 50"
      and k1': "\<And>K :: rat \<Rightarrow> driver io.
        bnd (randomDouble (7 / 2) 5) (\<lambda>v. bnd (lift (lam_tron v)) K) e s1 = K (fl (of_int k1 / 10)) e s2"
    using rating_step [OF assms, of s1] unfolding s2_def by blast
  obtain k2 where k2: "0 \<le> k2" "k2 \<le> 100"
      and k2': "\<And>K :: rat \<Rightarrow> driver io.
        bnd (randomDouble 0 10) (\<lambda>v. bnd (lift (lam_tron v)) K) e s2 = K (fl (of_int k2 / 10)) e s3"
    using coord_step [OF assms, of s2] unfolding s3_def by blast
  obtain k3 where k3: "0 \<le> k3" "k3 \<le> 100"
      and k3': "\<And>K :: rat \<Rightarrow> driver io.
        bnd (randomDouble 0 10) (\<lambda>v. bnd (lift (lam_tron v)) K) e s3 = K (fl (of_int k3 / 10)) e s4"
    using coord_step [OF assms, of s3] unfolding s4_def by blast
  have rng: "INT_MIN \<le> 10" "(10::int) \<le> 80" "80 \<le> INT_MAX" "80 - 10 < INT_MAX"
    by (simp_all add: INT_MIN_def INT_MAX_def)
  obtain t where t: "10 \<le> t" "t \<le> 80"
      and t': "\<And>K :: int \<Rightarrow> driver io. bnd (randomInt 10 80) K e s4 = K t e (s4\<lparr>drawn := Suc (drawn s4)\<rparr>)"
    using randomInt_step [OF assms rng, of s4] by blast
  have "driver_fields e s =
      Some (\<lparr>dname = n, rating = fl (of_int k1 / 10), dx = fl (of_int k2 / 10),
              dy = fl (of_int k3 / 10), total_rides = t\<rparr>, s\<lparr>drawn := drawn s + 7\<rparr>)"
    by (simp add: driver_fields_def n' k1' k2' k3' t')
      (simp add: ret_def s1_def s2_def s3_def s4_def)
  then show ?thesis using n k1 k2 k3 t by blast
qed

lemma customer_fields_eq:
  assumes "valid_env e"
  shows "\<exists>n q k2 k3. customer_fields e s =
      Some (\<lparr>cname = n, district = q, cx = fl (of_int k2 / 10), cy = fl (of_int k3 / 10)\<rparr>,
            s\<lparr>drawn := drawn s + 6\<rparr>) \<and>
    no_nl n \<and> q \<in> set QUAN \<and> 0 \<le> k2 \<and> k2 \<le> 100 \<and> 0 \<le> k3 \<and> k3 \<le> 100"
proof -
  define s1 where "s1 = s\<lparr>drawn := Suc (Suc (Suc (drawn s)))\<rparr>"
  define s2 where "s2 = s1\<lparr>drawn := Suc (drawn s1)\<rparr>"
  define s3 where "s3 = s2\<lparr>drawn := Suc (drawn s2)\<rparr>"
  obtain n where n: "no_nl n"
      and n': "\<And>K :: string \<Rightarrow> customer io. bnd sinh_ten K e s = K n e s1"
    using sinh_ten_step [OF assms, of s] unfolding s1_def by blast
  have rng: "INT_MIN \<le> 0" "(0::int) \<le> 9" "9 \<le> INT_MAX" "9 - 0 < INT_MAX"
    by (simp_all add: INT_MIN_def INT_MAX_def)
  obtain i where i: "0 \<le> i" "i \<le> 9"
      and i': "\<And>K :: int \<Rightarrow> customer io. bnd (randomInt 0 9) K e s1 = K i e s2"
    using randomInt_step [OF assms rng, of s1] unfolding s2_def by blast
  obtain q where q: "elem_at QUAN i = Some q" "q \<in> set QUAN"
    using elem_at_in [of i QUAN] i by (auto simp: table_length)
  obtain k2 where k2: "0 \<le> k2" "k2 \<le> 100"
      and k2': "\<And>K :: rat \<Rightarrow> customer io.
        bnd (randomDouble 0 10) (\<lambda>v. bnd (lift (lam_tron v)) K) e s2 = K (fl (of_int k2 / 10)) e s3"
    using coord_step [OF assms, of s2] unfolding s3_def by blast
  obtain k3 where k3: "0 \<le> k3" "k3 \<le> 100"
      and k3': "\<And>K :: rat \<Rightarrow> customer io.
        bnd (randomDouble 0 10) (\<lambda>v. bnd (lift (lam_tron v)) K) e s3 =
          K (fl (of_int k3 / 10)) e (s3\<lparr>drawn := Suc (drawn s3)\<rparr>)"
    using coord_step [OF assms, of s3] by blast
  have "customer_fields e s =
      Some (\<lparr>cname = n, district = q, cx = fl (of_int k2 / 10), cy = fl (of_int k3 / 10)\<rparr>,
            s\<lparr>drawn := drawn s + 6\<rparr>)"
    by (simp add: customer_fields_def n' i' q(1) bnd_lift_Some k2' k3')
      (simp add: ret_def s1_def s2_def s3_def)
  then show ?thesis using n q(2) k2 k3 by blast
qed

lemma ride_fields_eq:
  assumes "valid_env e"
  shows "\<exists>k c d f days h v. ride_fields e s =
      Some (\<lparr>customer_id = c, driver_id = d, distance = fl (of_int k / 10), fare = f,
              timestamp = format_tm (localtime e (clock e (clock_reads s) - (days * 86400 + h * 3600))),
              status = ride_status v\<rparr>,
            s\<lparr>clock_reads := Suc (clock_reads s), drawn := drawn s + 6\<rparr>) \<and>
    20 \<le> k \<and> k \<le> 120 \<and> 1 \<le> c \<and> c \<le> SO_KHACH_HANG \<and> 1 \<le> d \<and> d \<le> SO_TAI_XE \<and>
    d_mul (fl (of_int k / 10)) 12000 = Some f \<and> fixed_units 0 f = 1200 * k \<and>
    1 \<le> days \<and> days \<le> 30 \<and> 0 \<le> h \<and> h \<le> 23 \<and> 1 \<le> v \<and> v \<le> 10 \<and>
    randomInt_val 1 10 (rand_seq e (seed s) (drawn s + 5)) = Some v"
proof -
  define s1 where "s1 = s\<lparr>drawn := Suc (drawn s)\<rparr>"
  define s2 where "s2 = s1\<lparr>drawn := Suc (drawn s1)\<rparr>"
  define s3 where "s3 = s2\<lparr>drawn := Suc (drawn s2)\<rparr>"
  define s4 where "s4 = s3\<lparr>drawn := Suc (drawn s3)\<rparr>"
  define s5 where "s5 = s4\<lparr>clock_reads := Suc (clock_reads s4), drawn := Suc (drawn s4)\<rparr>"
  obtain k where k: "20 \<le> k" "k \<le> 120"
      and k': "\<And>K :: rat \<Rightarrow> ride io.
        bnd (randomDouble 2 12) (\<lambda>v. bnd (lift (lam_tron v)) K) e s = K (fl (of_int k / 10)) e s1"
    using dist_step [OF assms, of s] unfolding s1_def by blast
  have rng: "INT_MIN \<le> 1" "1 \<le> SO_KHACH_HANG" "SO_KHACH_HANG \<le> INT_MAX" "SO_KHACH_HANG - 1 < INT_MAX"
    "1 \<le> SO_TAI_XE" "SO_TAI_XE \<le> INT_MAX" "SO_TAI_XE - 1 < INT_MAX"
    "(1::int) \<le> 30" "30 \<le> INT_MAX" "30 - 1 < INT_MAX" "(1::int) \<le> 10" "10 \<le> INT_MAX" "10 - 1 < INT_MAX"
    by (simp_all add: INT_MIN_def INT_MAX_def SO_KHACH_HANG_def SO_TAI_XE_def)
  obtain c where c: "1 \<le> c" "c \<le> SO_KHACH_HANG"
      and c': "\<And>K :: int \<Rightarrow> ride io. bnd (randomInt 1 SO_KHACH_HANG) K e s1 = K c e s2"
    using randomInt_step [OF assms rng(1-4), of s1] unfolding s2_def by blast
  obtain d where d: "1 \<le> d" "d \<le> SO_TAI_XE"
      and d': "\<And>K :: int \<Rightarrow> ride io. bnd (randomInt 1 SO_TAI_XE) K e s2 = K d e s3"
    using randomInt_step [OF assms rng(1,5-7), of s2] unfolding s3_def by blast
  obtain f where f: "d_mul (fl (of_int k / 10)) 12000 = Some f" "fixed_units 0 f = 1200 * k"
    using fare_exact [of k] k by auto
  obtain days where days: "1 \<le> days" "days \<le> 30"
      and days': "\<And>K :: int \<Rightarrow> ride io. bnd (randomInt 1 30) K e s3 = K days e s4"
    using randomInt_step [OF assms rng(1,8-10), of s3] unfolding s4_def by blast
  have dr: "- 24855 \<le> days" "days \<le> 24854" using days by simp_all
  obtain h where h: "0 \<le> h" "h \<le> 23"
      and h': "\<And>K :: string \<Rightarrow> ride io. bnd (sinh_timestamp days) K e s4 =
        K (format_tm (localtime e (clock e (clock_reads s4) - (days * 86400 + h * 3600)))) e s5"
    using sinh_timestamp_step [OF assms dr, of s4] unfolding s5_def by blast
  obtain v where v: "1 \<le> v" "v \<le> 10" "randomInt_val 1 10 (rand_seq e (seed s5) (drawn s5)) = Some v"
      and v': "\<And>K :: int \<Rightarrow> ride io. bnd (randomInt 1 10) K e s5 = K v e (s5\<lparr>drawn := Suc (drawn s5)\<rparr>)"
    using randomInt_step [OF assms rng(1,11-13), of s5] by blast
  have five: "drawn s5 = drawn s + 5" "seed s5 = seed s" "clock_reads s4 = clock_reads s"
    by (simp_all add: s1_def s2_def s3_def s4_def s5_def)
  have "ride_fields e s =
      Some (\<lparr>customer_id = c, driver_id = d, distance = fl (of_int k / 10), fare = f,
              timestamp = format_tm (localtime e (clock e (clock_reads s) - (days * 86400 + h * 3600))),
              status = ride_status v\<rparr>,
            s\<lparr>clock_reads := Suc (clock_reads s), drawn := drawn s + 6\<rparr>)"
    by (simp add: ride_fields_def k' c' d' f(1) bnd_lift_Some days' h' v' five(3))
      (simp add: ret_def s1_def s2_def s3_def s4_def s5_def)
  then show ?thesis using k c d f days h v(1,2) v(3) [unfolded five] by blast
qed

subsection \<open>The printed fields\<close>

lemma c_round_near:
  assumes "\<bar>v - of_int n\<bar> < 1 / 2"
  shows "c_round v = of_int n"
proof (cases "0 \<le> v")
  case True
  have "of_int n \<le> v + 1 / 2" "v + 1 / 2 < of_int n + 1" using assms by linarith+
  then have "\<lfloor>v + 1 / 2\<rfloor> = n" by (intro floor_unique)
  then show ?thesis using True by (simp add: c_round_def)
next
  case False
  have "- of_int n \<le> - v + 1 / 2" "- v + 1 / 2 < - of_int n + 1" using assms by linarith+
  then have "of_int (- n) \<le> - v + 1 / 2" "- v + 1 / 2 < of_int (- n) + 1" by simp_all
  then have "\<lfloor>- v + 1 / 2\<rfloor> = - n" by (intro floor_unique)
  then show ?thesis using False by (simp add: c_round_def)
qed

lemma fare_round:
  assumes "0 \<le> k" "k \<le> 120"
  shows "c_round (fl (of_int k / 10) * 12000) = of_int (1200 * k)"
proof -
  define q :: rat where "q = fl (of_int k / 10)"
  have kr: "(0::rat) \<le> of_int k" "(of_int k :: rat) \<le> 120"
    using assms by simp_all
  then have "\<bar>of_int k\<bar> / 10 / 2 ^ 53 \<le> (12::rat) / 2 ^ 53" by simp
  then have e1: "\<bar>q - of_int k / 10\<bar> \<le> 12 / 2 ^ 53"
    using tenth_err [of k] by (simp add: q_def)
  have "q * 12000 - of_int (1200 * k) = 12000 * (q - of_int k / 10)"
    by (simp add: algebra_simps)
  then have "\<bar>q * 12000 - of_int (1200 * k)\<bar> = \<bar>12000\<bar> * \<bar>q - of_int k / 10\<bar>"
    by (simp only: abs_mult)
  then have "\<bar>q * 12000 - of_int (1200 * k)\<bar> \<le> 144000 / 2 ^ 53"
    using e1 by simp
  also have "\<dots> < 1 / 2" by simp
  finally show ?thesis unfolding q_def by (rule c_round_near)
qed

lemma show_nat_digit: "n < 10 \<Longrightarrow> show_nat n = [digit n]"
  by (subst show_nat.simps) simp

lemma fixed_1_text:
  assumes "0 \<le> v" "fixed_units 1 v = k"
  shows "fixed 1 v = show_int (k div 10) @ ''.'' @ show_int (k mod 10)"
proof -
  have "of_int 0 \<le> v * 10 ^ 1" using assms(1) by simp
  then have "0 \<le> rne (v * 10 ^ 1)" by (rule rne_ge)
  then have k: "0 \<le> k" using assms(2) by (simp add: fixed_units_def)
  have m: "0 \<le> k mod 10" "k mod 10 < 10" by simp_all
  have "nat k div 10 = nat (k div 10)" "nat k mod 10 = nat (k mod 10)"
    using k by (simp_all add: nat_div_distrib nat_mod_distrib)
  moreover have "show_int (k mod 10) = [digit (nat (k mod 10))]"
    using m by (simp add: show_int_def add: show_nat_digit)
  moreover have "show_int (k div 10) = show_nat (nat (k div 10))"
    using k by (simp add: show_int_def pos_imp_zdiv_nonneg_iff)
  moreover have "digit (nat (k mod 10) mod 10) = digit (nat (k mod 10))"
    by (simp add: digit_def)
  ultimately show ?thesis
    using assms k by (simp add: fixed_def Let_def)
qed

lemma fixed_0_text:
  assumes "0 \<le> v"
  shows "fixed 0 v = show_int (fixed_units 0 v)"
proof -
  have "of_int 0 \<le> v * 10 ^ 0" using assms(1) by simp
  then have "0 \<le> rne (v * 10 ^ 0)" by (rule rne_ge)
  then have k: "0 \<le> fixed_units 0 v" by (simp add: fixed_units_def)
  then show ?thesis
    using assms by (simp add: fixed_def Let_def show_int_def)
qed

lemma tenths_ok:
  assumes "0 \<le> k" "k \<le> 120"
  shows "tenths (fl (of_int k / 10)) k"
proof -
  have "\<bar>k\<bar> < 2 ^ 52" using assms by simp
  then have u: "fixed_units 1 (fl (of_int k / 10)) = k" by (rule fixed_units_tenth)
  have "fl 0 \<le> fl (of_int k / 10)" using assms(1) by (intro fl_mono) simp
  then have "0 \<le> fl (of_int k / 10)" by simp
  then have "fixed 1 (fl (of_int k / 10)) = show_int (k div 10) @ ''.'' @ show_int (k mod 10)"
    using u by (rule fixed_1_text)
  then show ?thesis using u by (simp add: tenths_def)
qed

lemma tenth_range:
  assumes "a \<le> k" "k \<le> b" "is_double (of_int a / 10)" "is_double (of_int b / 10)"
    "va = of_int a / 10" "vb = of_int b / 10"
  shows "va \<le> fl (of_int k / 10) \<and> fl (of_int k / 10) \<le> vb"
  using tenth_between [OF assms(1-4)] assms(5,6) by simp

lemma is_double_bounds:
  "is_double (of_int 35 / 10)" "is_double (of_int 50 / 10)" "is_double (of_int 0 / 10)"
  "is_double (of_int 100 / 10)" "is_double (of_int 20 / 10)" "is_double (of_int 120 / 10)"
  using is_double_half [of 7] by (simp_all add: is_double_numeral)

lemma valid_sample_env: "valid_env sample_env"
proof -
  have "0 \<le> (int sd + 7919 * int n) mod 32768 \<and> (int sd + 7919 * int n) mod 32768 < 32768" for sd n
    by (rule int_mod_range) simp
  then have "0 \<le> (int sd + 7919 * int n) mod 32768 \<and> (int sd + 7919 * int n) mod 32768 \<le> 32767" for sd n
    by (simp add: zle_diff1_eq [symmetric] del: pos_mod_bound)
  then show ?thesis
    by (simp add: valid_env_def sample_env_def INT_MAX_def)
qed

subsection \<open>The files that \<open>main\<close> writes\<close>

lemma no_nl_Nil [simp]: "no_nl []"
  by (simp add: no_nl_def)

lemma no_nl_Cons [simp]: "no_nl (c # cs) \<longleftrightarrow> c \<noteq> CHR 0x0A \<and> no_nl cs"
  by (auto simp: no_nl_def)

lemma digit_no_nl [simp]: "digit d \<noteq> CHR 0x0A"
proof -
  have "d mod 10 < length ''0123456789''" by simp
  then have "digit d \<in> set ''0123456789''"
    unfolding digit_def by (rule nth_mem)
  then show ?thesis by auto
qed

lemma no_nl_show_nat: "no_nl (show_nat n)"
proof (induction n rule: show_nat.induct)
  case (1 n)
  show ?case
  proof (cases "n < 10")
    case True
    then show ?thesis by (subst show_nat.simps) simp
  next
    case False
    then have "show_nat n = show_nat (n div 10) @ [digit (n mod 10)]"
      by (subst show_nat.simps) simp
    then show ?thesis
      using 1 False by (simp)
  qed
qed

lemma no_nl_show_int: "no_nl (show_int i)"
  using no_nl_show_nat by (simp add: show_int_def)

lemma no_nl_digits: "no_nl (digits p n)"
  by (induction p arbitrary: n) simp_all

lemma no_nl_fixed: "no_nl (fixed p v)"
  using no_nl_show_nat no_nl_digits
  by (simp add: fixed_def Let_def)

lemma no_nl_setw2: "no_nl (setw2 n)"
  using no_nl_show_int [of n] by (simp add: setw2_def) (simp add: no_nl_def)

lemma no_nl_format_tm: "no_nl (format_tm t)"
  using no_nl_show_int no_nl_setw2 by (simp add: format_tm_def)

lemma no_nl_ride_status: "no_nl (ride_status v)"
  by (simp add: ride_status_def)

lemma no_nl_comma: "no_nl '',''"
  by simp

lemma lines_from_line:
  assumes "no_nl l"
  shows "lines_from acc (l @ nl @ rest) = (acc @ l) # lines_from [] rest"
  using assms by (induction l arbitrary: acc) (simp_all add: nl_def)

lemma lines_of_rows:
  assumes "\<forall>l\<in>set ls. no_nl l"
  shows "lines_of (concat (map (\<lambda>l. l @ nl) ls)) = ls"
  using assms
proof (induction ls)
  case Nil
  then show ?case by (simp add: lines_of_def)
next
  case (Cons l ls)
  then have "lines_from [] (l @ nl @ concat (map (\<lambda>l. l @ nl) ls)) =
      ([] @ l) # lines_from [] (concat (map (\<lambda>l. l @ nl) ls))"
    by (intro lines_from_line) simp
  then show ?case using Cons by (simp add: lines_of_def)
qed

lemma data_lines_file:
  assumes "no_nl hdr" "\<forall>l\<in>set ls. no_nl l"
  shows "lines_of (hdr @ nl @ concat (map (\<lambda>l. l @ nl) ls)) = hdr # ls"
    and "data_lines (hdr @ nl @ concat (map (\<lambda>l. l @ nl) ls)) = ls"
proof -
  have "lines_from [] (hdr @ nl @ concat (map (\<lambda>l. l @ nl) ls)) =
      ([] @ hdr) # lines_from [] (concat (map (\<lambda>l. l @ nl) ls))"
    using assms(1) by (rule lines_from_line)
  then show "lines_of (hdr @ nl @ concat (map (\<lambda>l. l @ nl) ls)) = hdr # ls"
    using lines_of_rows [OF assms(2)] by (simp add: lines_of_def)
  then show "data_lines (hdr @ nl @ concat (map (\<lambda>l. l @ nl) ls)) = ls"
    by (simp add: data_lines_def)
qed

lemma clip_idem: "clip e p (clip e p c) = clip e p c"
  by (simp add: clip_def split: option.splits)

lemma clip_clip_append: "clip e p (clip e p c @ t) = clip e p (c @ t)"
  by (auto simp: clip_def min_def split: option.splits)

lemma stream_inv_frame:
  assumes "files s' = files s" "bad s' = bad s"
  shows "stream_inv e s' p = stream_inv e s p"
  by (simp only: stream_inv_def assms)

lemma put_ok:
  assumes "good f \<Longrightarrow> stream_inv e s (path f)"
  shows "\<exists>s'. put f txt e s = Some ((), s') \<and> console s' = console s \<and>
    files s' = (if good f then (files s)(path f \<mapsto> clip e (path f) (content s (path f) @ txt))
                else files s) \<and>
    (if good f then stream_inv e s' (path f) else True)"
proof (cases "good f")
  case False
  then show ?thesis by (simp add: put_def)
next
  case True
  then obtain c where c: "files s (path f) = Some c" "clip e (path f) c = c"
      "bad s (path f) \<Longrightarrow> write_limit e (path f) = Some (length c)"
    using assms by (auto simp: stream_inv_def split: option.splits if_splits)
  have ct: "content s (path f) = c" using c(1) by (simp add: content_def)
  show ?thesis
  proof (cases "bad s (path f)")
    case b: True
    then have "write_limit e (path f) = Some (length c)" by (rule c(3))
    then have "clip e (path f) (c @ txt) = c" by (simp add: clip_def)
    then have "(files s)(path f \<mapsto> clip e (path f) (content s (path f) @ txt)) = files s"
      using c(1) ct by (auto simp: fun_eq_iff)
    then show ?thesis
      using True b assms by (simp add: put_def)
  next
    case nb: False
    show ?thesis
    proof (cases "write_limit e (path f)")
      case None
      then show ?thesis
        using True nb by (simp add: put_def Let_def clip_def stream_inv_def)
    next
      case (Some k)
      have "take k c = c" using c(2) Some by (simp add: clip_def)
      then have "length c = min (length c) k" by (metis length_take)
      then have lc: "length (content s (path f)) \<le> k" using ct by simp
      show ?thesis
      proof (cases "length (content s (path f) @ txt) \<le> k")
        case fit: True
        then show ?thesis
          using True nb Some by (simp add: put_def Let_def clip_def stream_inv_def)
      next
        case nofit: False
        then show ?thesis
          using True nb Some lc by (simp add: put_def Let_def clip_def stream_inv_def min_def)
      qed
    qed
  qed
qed


lemma row_ok:
  assumes mres: "mf e s = Some (r, s1)"
    and frame: "files s1 = files s" "bad s1 = bad s" "console s1 = console s"
    and line: "no_nl l"
    and l: "l = line r"
    and inv: "good f \<Longrightarrow> stream_inv e s (path f)"
  shows "\<exists>l s'. bnd mf (\<lambda>r. put f (line r @ nl)) e s = Some ((), s') \<and> no_nl l \<and>
    console s' = console s \<and>
    files s' = (if good f then (files s)(path f \<mapsto> clip e (path f) (content s (path f) @ l @ nl))
                else files s) \<and>
    (if good f then stream_inv e s' (path f) else True)"
proof -
  have "good f \<Longrightarrow> stream_inv e s1 (path f)"
    using inv stream_inv_frame [OF frame(1,2)] by simp
  then obtain s' where p: "put f (l @ nl) e s1 = Some ((), s')" "console s' = console s1"
      "files s' = (if good f then (files s1)(path f \<mapsto> clip e (path f) (content s1 (path f) @ l @ nl))
                else files s1)"
      "if good f then stream_inv e s' (path f) else True"
    using put_ok [of f e s1 "l @ nl"] by blast
  have "content s1 (path f) = content s (path f)"
    using frame(1) by (simp add: content_def)
  then have "files s' = (if good f
      then (files s)(path f \<mapsto> clip e (path f) (content s (path f) @ l @ nl)) else files s)"
    using p(3) frame(1) by simp
  moreover have "bnd mf (\<lambda>r. put f (line r @ nl)) e s = Some ((), s')"
    using mres p(1) l by (simp add: bnd_def)
  ultimately show ?thesis
    using line p(2,4) frame(3) by auto
qed

lemma driver_row_ok:
  assumes "valid_env e" and inv: "good f \<Longrightarrow> stream_inv e s (path f)"
  shows "\<exists>l s'. driver_row f i e s = Some ((), s') \<and> no_nl l \<and> console s' = console s \<and>
    files s' = (if good f then (files s)(path f \<mapsto> clip e (path f) (content s (path f) @ l @ nl))
                else files s) \<and>
    (if good f then stream_inv e s' (path f) else True)"
proof -
  obtain n k1 k2 k3 t where eq: "driver_fields e s =
      Some (\<lparr>dname = n, rating = fl (of_int k1 / 10), dx = fl (of_int k2 / 10),
              dy = fl (of_int k3 / 10), total_rides = t\<rparr>, s\<lparr>drawn := drawn s + 7\<rparr>)"
    and n: "no_nl n"
    using driver_fields_eq [OF assms(1), of s] by blast
  define d where "d = \<lparr>dname = n, rating = fl (of_int k1 / 10), dx = fl (of_int k2 / 10),
              dy = fl (of_int k3 / 10), total_rides = t\<rparr>"
  have "no_nl (driver_line i d)"
    using n by (simp add: driver_line_def d_def no_nl_show_int no_nl_fixed no_nl_comma)
  moreover have "driver_fields e s = Some (d, s\<lparr>drawn := drawn s + 7\<rparr>)"
    using eq by (simp only: d_def)
  ultimately show ?thesis
    unfolding driver_row_def
    by (intro row_ok [where line = "driver_line i" and r = d and l = "driver_line i d"
        and ?s1.0 = "s\<lparr>drawn := drawn s + 7\<rparr>"] inv)
      simp_all
qed

lemma customer_row_ok:
  assumes "valid_env e" and inv: "good f \<Longrightarrow> stream_inv e s (path f)"
  shows "\<exists>l s'. customer_row f i e s = Some ((), s') \<and> no_nl l \<and> console s' = console s \<and>
    files s' = (if good f then (files s)(path f \<mapsto> clip e (path f) (content s (path f) @ l @ nl))
                else files s) \<and>
    (if good f then stream_inv e s' (path f) else True)"
proof -
  obtain n q k2 k3 where eq: "customer_fields e s =
      Some (\<lparr>cname = n, district = q, cx = fl (of_int k2 / 10), cy = fl (of_int k3 / 10)\<rparr>,
            s\<lparr>drawn := drawn s + 6\<rparr>)"
    and n: "no_nl n" "q \<in> set QUAN"
    using customer_fields_eq [OF assms(1), of s] by blast
  define c where "c = \<lparr>cname = n, district = q, cx = fl (of_int k2 / 10), cy = fl (of_int k3 / 10)\<rparr>"
  have "no_nl q" using n(2) no_nl_tables(4) by blast
  then have "no_nl (customer_line i c)"
    using n(1) by (simp add: customer_line_def c_def no_nl_show_int no_nl_fixed no_nl_comma)
  moreover have "customer_fields e s = Some (c, s\<lparr>drawn := drawn s + 6\<rparr>)"
    using eq by (simp only: c_def)
  ultimately show ?thesis
    unfolding customer_row_def
    by (intro row_ok [where line = "customer_line i" and r = c and l = "customer_line i c"
        and ?s1.0 = "s\<lparr>drawn := drawn s + 6\<rparr>"] inv)
      simp_all
qed

lemma ride_row_ok:
  assumes "valid_env e" and inv: "good f \<Longrightarrow> stream_inv e s (path f)"
  shows "\<exists>l s'. ride_row f i e s = Some ((), s') \<and> no_nl l \<and> console s' = console s \<and>
    files s' = (if good f then (files s)(path f \<mapsto> clip e (path f) (content s (path f) @ l @ nl))
                else files s) \<and>
    (if good f then stream_inv e s' (path f) else True)"
proof -
  obtain k c d fa days h v where eq: "ride_fields e s =
      Some (\<lparr>customer_id = c, driver_id = d, distance = fl (of_int k / 10), fare = fa,
              timestamp = format_tm (localtime e (clock e (clock_reads s) - (days * 86400 + h * 3600))),
              status = ride_status v\<rparr>,
            s\<lparr>clock_reads := Suc (clock_reads s), drawn := drawn s + 6\<rparr>)"
    using ride_fields_eq [OF assms(1), of s] by blast
  define r where "r = \<lparr>customer_id = c, driver_id = d, distance = fl (of_int k / 10), fare = fa,
              timestamp = format_tm (localtime e (clock e (clock_reads s) - (days * 86400 + h * 3600))),
              status = ride_status v\<rparr>"
  have "no_nl (ride_line i r)"
    by (simp add: ride_line_def r_def no_nl_show_int no_nl_fixed no_nl_comma no_nl_format_tm
        no_nl_ride_status)
  moreover have "ride_fields e s =
      Some (r, s\<lparr>clock_reads := Suc (clock_reads s), drawn := drawn s + 6\<rparr>)"
    using eq by (simp only: r_def)
  ultimately show ?thesis
    unfolding ride_row_def
    by (intro row_ok [where line = "ride_line i" and r = r and l = "ride_line i r"
        and ?s1.0 = "s\<lparr>clock_reads := Suc (clock_reads s), drawn := drawn s + 6\<rparr>"] inv)
      simp_all
qed


lemma for_loop_rows:
  assumes body: "\<And>i s. (good f \<Longrightarrow> stream_inv e s (path f)) \<Longrightarrow>
      \<exists>l s'. body i e s = Some ((), s') \<and> no_nl l \<and> console s' = console s \<and>
      files s' = (if good f then (files s)(path f \<mapsto> clip e (path f) (content s (path f) @ l @ nl))
                  else files s) \<and>
      (if good f then stream_inv e s' (path f) else True)"
    and n: "n < INT_MAX"
  shows "1 \<le> i \<Longrightarrow> i \<le> n + 1 \<Longrightarrow> k = nat (n + 1 - i) \<Longrightarrow>
    (good f \<longrightarrow> stream_inv e s (path f)) \<Longrightarrow>
    \<exists>ls s'. for_loop i n body e s = Some ((), s') \<and> length ls = k \<and> (\<forall>l\<in>set ls. no_nl l) \<and>
      console s' = console s \<and>
      files s' = (if good f
                  then (files s)(path f \<mapsto>
                         clip e (path f) (content s (path f) @ concat (map (\<lambda>l. l @ nl) ls)))
                  else files s)"
proof (induction k arbitrary: i s)
  case 0
  then have "\<not> i \<le> n" by simp
  then have "for_loop i n body e s = Some ((), s)" by (subst for_loop.simps) simp
  moreover have "files s = (files s)(path f \<mapsto> clip e (path f) (content s (path f)))" if "good f"
  proof -
    have "stream_inv e s (path f)" using 0(4) that by simp
    then obtain c where "files s (path f) = Some c" "clip e (path f) c = c"
      by (auto simp: stream_inv_def split: option.splits)
    then show ?thesis by (auto simp: content_def fun_eq_iff)
  qed
  ultimately show ?case by auto
next
  case (Suc k)
  then have le: "i \<le> n" by simp
  have "good f \<Longrightarrow> stream_inv e s (path f)" using Suc(5) by simp
  then obtain l s1 where b: "body i e s = Some ((), s1)" "no_nl l" "console s1 = console s"
      "files s1 = (if good f then (files s)(path f \<mapsto> clip e (path f) (content s (path f) @ l @ nl))
                   else files s)"
      "if good f then stream_inv e s1 (path f) else True"
    using body [of s i] by blast
  have c: "int_chk (i + 1) = Some (i + 1)"
    using Suc(2) le n by (simp add: int_chk_def INT_MIN_def INT_MAX_def)
  have "1 \<le> i + 1" "i + 1 \<le> n + 1" "k = nat (n + 1 - (i + 1))"
    using Suc(2,4) le by simp_all
  moreover have "good f \<longrightarrow> stream_inv e s1 (path f)"
    using b(5) by simp
  ultimately obtain ls s2 where r: "for_loop (i + 1) n body e s1 = Some ((), s2)" "length ls = k"
      "\<forall>l\<in>set ls. no_nl l" "console s2 = console s1"
      "files s2 = (if good f
                   then (files s1)(path f \<mapsto>
                          clip e (path f) (content s1 (path f) @ concat (map (\<lambda>l. l @ nl) ls)))
                   else files s1)"
    using Suc.IH [of "i + 1" s1] by blast
  have run: "for_loop i n body e s = Some ((), s2)"
    using le b(1) c r(1) by (subst for_loop.simps) simp
  have "good f \<Longrightarrow> content s1 (path f) = clip e (path f) (content s (path f) @ l @ nl)"
    using b(4) by (simp add: content_def)
  then have "files s2 = (if good f
      then (files s)(path f \<mapsto>
             clip e (path f) (content s (path f) @ concat (map (\<lambda>l. l @ nl) (l # ls))))
      else files s)"
    using r(5) b(4) by (simp add: clip_clip_append)
  moreover have "length (l # ls) = Suc k" "\<forall>x\<in>set (l # ls). no_nl x"
    using r(2,3) b(2) by simp_all
  ultimately show ?case
    using run r(4) b(3) by metis
qed

lemma section_step:
  assumes rows: "\<And>f i s. (good f \<Longrightarrow> stream_inv e s (path f)) \<Longrightarrow>
      \<exists>l s'. body f i e s = Some ((), s') \<and> no_nl l \<and> console s' = console s \<and>
      files s' = (if good f then (files s)(path f \<mapsto> clip e (path f) (content s (path f) @ l @ nl))
                  else files s) \<and>
      (if good f then stream_inv e s' (path f) else True)"
    and n: "0 \<le> n" "n < INT_MAX"
  shows "\<exists>ls s'. length ls = nat n \<and> (\<forall>l\<in>set ls. no_nl l) \<and> console s' = console s @ ma @ mb \<and>
    files s' = (if can_open e p
                then (files s)(p \<mapsto> clip e p (hdr @ nl @ concat (map (\<lambda>l. l @ nl) ls)))
                else files s) \<and>
    (\<forall>K :: unit \<Rightarrow> 'r io.
       bnd (open_out p) (\<lambda>f. bnd (put f (hdr @ nl)) (\<lambda>_. bnd (cout ma) (\<lambda>_.
       bnd (for_loop 1 n (body f)) (\<lambda>_. bnd (close_out f) (\<lambda>_. bnd (cout mb) K))))) e s =
       K () e s')"
proof -
  define f where "f = \<lparr>path = p, good = can_open e p\<rparr>"
  define so where "so = (if can_open e p
      then s\<lparr>files := (files s)(p \<mapsto> []), bad := (bad s)(p := False)\<rparr> else s)"
  have oo: "open_out p e s = Some (f, so)"
    by (simp add: open_out_def f_def so_def)
  have "good f \<Longrightarrow> stream_inv e so (path f)"
    by (simp add: f_def so_def stream_inv_def clip_def split: option.splits)
  then obtain sh where ph: "put f (hdr @ nl) e so = Some ((), sh)" "console sh = console so"
      "files sh = (if good f then (files so)(path f \<mapsto> clip e (path f) (content so (path f) @ hdr @ nl))
                   else files so)"
      "if good f then stream_inv e sh (path f) else True"
    using put_ok [of f e so "hdr @ nl"] by blast
  define s1 where "s1 = sh\<lparr>console := console sh @ ma\<rparr>"
  have co: "cout ma e sh = Some ((), s1)"
    by (simp add: cout_def s1_def)
  have "files s1 = files sh" "bad s1 = bad sh"
    by (simp_all add: s1_def)
  then have pre: "good f \<longrightarrow> stream_inv e s1 (path f)"
    using ph(4) stream_inv_frame [of s1 sh e "path f"] by simp
  have "(1::int) \<le> 1" "1 \<le> n + 1" "nat n = nat (n + 1 - 1)" using n by simp_all
  then obtain ls s2 where r: "for_loop 1 n (body f) e s1 = Some ((), s2)" "length ls = nat n"
      "\<forall>l\<in>set ls. no_nl l" "console s2 = console s1"
      "files s2 = (if good f
                   then (files s1)(path f \<mapsto>
                          clip e (path f) (content s1 (path f) @ concat (map (\<lambda>l. l @ nl) ls)))
                   else files s1)"
    using for_loop_rows [of f e "body f" n 1 "nat n" s1, OF rows n(2) _ _ _ pre] by blast
  define s3 where "s3 = s2\<lparr>console := console s2 @ mb\<rparr>"
  have cm: "cout mb e s2 = Some ((), s3)"
    by (simp add: cout_def s3_def)
  have c1: "can_open e p \<Longrightarrow> content s1 p = clip e p (hdr @ nl)"
    using ph(3) by (simp add: content_def s1_def f_def so_def)
  have files: "files s3 = (if can_open e p
                then (files s)(p \<mapsto> clip e p (hdr @ nl @ concat (map (\<lambda>l. l @ nl) ls)))
                else files s)"
  proof (cases "can_open e p")
    case True
    then have "files s3 = (files s1)(p \<mapsto> clip e p (clip e p (hdr @ nl) @ concat (map (\<lambda>l. l @ nl) ls)))"
      using r(5) c1 by (simp add: s3_def f_def)
    moreover have "files s1 = (files s)(p \<mapsto> clip e p (hdr @ nl))"
      using True ph(3) by (simp add: s1_def f_def so_def content_def)
    ultimately show ?thesis
      using True by (simp add: clip_clip_append)
  next
    case False
    then show ?thesis
      using r(5) ph(3) by (simp add: s3_def s1_def f_def so_def)
  qed
  have con: "console s3 = console s @ ma @ mb"
    using r(4) ph(2) by (simp add: s3_def s1_def so_def)
  have "bnd (open_out p) (\<lambda>f. bnd (put f (hdr @ nl)) (\<lambda>_. bnd (cout ma) (\<lambda>_.
       bnd (for_loop 1 n (body f)) (\<lambda>_. bnd (close_out f) (\<lambda>_. bnd (cout mb) K))))) e s =
       K () e s3" for K :: "unit \<Rightarrow> 'r io"
    by (simp add: bnd_def oo ph(1) co r(1) cm close_out_def ret_def)
  then show ?thesis using r(2,3) files con by blast
qed

lemma bnd_c_time:
  "bnd c_time K e s = K (clock e (clock_reads s)) e (s\<lparr>clock_reads := Suc (clock_reads s)\<rparr>)"
  by (simp add: bnd_def c_time_def)

lemma bnd_srand: "bnd (srand n) K e s = K () e (s\<lparr>seed := n, drawn := 0\<rparr>)"
  by (simp add: bnd_def srand_def)

lemma bnd_cout: "bnd (cout m) K e s = K () e (s\<lparr>console := console s @ m\<rparr>)"
  by (simp add: bnd_def cout_def)

lemma paths_distinct:
  "file_driver \<noteq> file_customer" "file_driver \<noteq> file_ride" "file_customer \<noteq> file_ride"
  "file_customer \<noteq> file_driver" "file_ride \<noteq> file_driver" "file_ride \<noteq> file_customer"
  by (simp_all add: file_driver_def file_customer_def file_ride_def)

lemma counts_in_range:
  "0 \<le> SO_TAI_XE" "SO_TAI_XE < INT_MAX" "0 \<le> SO_KHACH_HANG" "SO_KHACH_HANG < INT_MAX"
  "0 \<le> SO_CHUYEN_DI" "SO_CHUYEN_DI < INT_MAX"
  by (simp_all add: SO_TAI_XE_def SO_KHACH_HANG_def SO_CHUYEN_DI_def INT_MAX_def)

lemma main_spec:
  assumes "valid_env e"
  shows "\<exists>s' r1 r2 r3. main e s = Some (0, s') \<and> console s' = console s @ transcript \<and>
    length r1 = 100 \<and> length r2 = 100 \<and> length r3 = 500 \<and>
    (\<forall>l\<in>set r1. no_nl l) \<and> (\<forall>l\<in>set r2. no_nl l) \<and> (\<forall>l\<in>set r3. no_nl l) \<and>
    files s' file_driver =
      (if can_open e file_driver
       then Some (clip e file_driver
                    (''ID,Name,Rating,X,Y,TotalRides'' @ nl @ concat (map (\<lambda>l. l @ nl) r1)))
       else files s file_driver) \<and>
    files s' file_customer =
      (if can_open e file_customer
       then Some (clip e file_customer
                    (''ID,Name,District,X,Y'' @ nl @ concat (map (\<lambda>l. l @ nl) r2)))
       else files s file_customer) \<and>
    files s' file_ride =
      (if can_open e file_ride
       then Some (clip e file_ride
                    (''RideId,CustomerId,DriverId,Distance,Fare,Timestamp,Status'' @ nl @
                     concat (map (\<lambda>l. l @ nl) r3)))
       else files s file_ride)"
proof -
  define b1 where "b1 = nl @ banner @ nl @ ''   MINRIDE DATA GENERATOR'' @ nl @ banner @ nl @ nl"
  define b2 where "b2 = nl @ banner @ nl @ ''   HOAN THANH!'' @ nl @ banner @ nl @ nl"
  define h1 where "h1 = ''ID,Name,Rating,X,Y,TotalRides''"
  define h2 where "h2 = ''ID,Name,District,X,Y''"
  define h3 where "h3 = ''RideId,CustomerId,DriverId,Distance,Fare,Timestamp,Status''"
  define m1 where "m1 = ''Dang sinh '' @ show_int SO_TAI_XE @ '' tai xe...'' @ nl"
  define m2 where "m2 = ''Dang sinh '' @ show_int SO_KHACH_HANG @ '' khach hang...'' @ nl"
  define m3 where "m3 = ''Dang sinh '' @ show_int SO_CHUYEN_DI @ '' chuyen di...'' @ nl"
  define a1 where "a1 = ''  -> '' @ file_driver @ nl"
  define a2 where "a2 = ''  -> '' @ file_customer @ nl"
  define a3 where "a3 = ''  -> '' @ file_ride @ nl"
  define sa where "sa = s\<lparr>clock_reads := Suc (clock_reads s)\<rparr>"
  define sb where "sb = sa\<lparr>seed := nat (clock e (clock_reads s) mod 2 ^ 32), drawn := 0\<rparr>"
  define s0 where "s0 = sb\<lparr>console := console sb @ b1\<rparr>"
  have t1: "bnd c_time K e s = K (clock e (clock_reads s)) e sa" for K :: "int \<Rightarrow> int io"
    by (simp add: bnd_c_time sa_def)
  have t2: "bnd (srand (nat (clock e (clock_reads s) mod 2 ^ 32))) K e sa = K () e sb"
    for K :: "unit \<Rightarrow> int io"
    by (simp add: bnd_srand sb_def)
  have t3: "bnd (cout b1) K e sb = K () e s0" for K :: "unit \<Rightarrow> int io"
    by (simp add: bnd_cout s0_def)
  obtain r1 s1 where 1: "length r1 = nat SO_TAI_XE" "\<forall>l\<in>set r1. no_nl l"
      "console s1 = console s0 @ m1 @ a1"
      "files s1 = (if can_open e file_driver
          then (files s0)(file_driver \<mapsto> clip e file_driver (h1 @ nl @ concat (map (\<lambda>l. l @ nl) r1)))
          else files s0)"
      and st1: "\<And>K :: unit \<Rightarrow> int io.
        bnd (open_out file_driver) (\<lambda>f. bnd (put f (h1 @ nl)) (\<lambda>_. bnd (cout m1) (\<lambda>_.
        bnd (for_loop 1 SO_TAI_XE (driver_row f)) (\<lambda>_. bnd (close_out f) (\<lambda>_. bnd (cout a1) K))))) e s0 =
        K () e s1"
    using section_step [where body = driver_row and e = e and n = SO_TAI_XE and s = s0 and ma = m1
        and mb = a1 and p = file_driver and hdr = h1, OF driver_row_ok [OF assms] counts_in_range(1,2)]
    by blast
  obtain r2 s2 where 2: "length r2 = nat SO_KHACH_HANG" "\<forall>l\<in>set r2. no_nl l"
      "console s2 = console s1 @ m2 @ a2"
      "files s2 = (if can_open e file_customer
          then (files s1)(file_customer \<mapsto> clip e file_customer (h2 @ nl @ concat (map (\<lambda>l. l @ nl) r2)))
          else files s1)"
      and st2: "\<And>K :: unit \<Rightarrow> int io.
        bnd (open_out file_customer) (\<lambda>f. bnd (put f (h2 @ nl)) (\<lambda>_. bnd (cout m2) (\<lambda>_.
        bnd (for_loop 1 SO_KHACH_HANG (customer_row f)) (\<lambda>_. bnd (close_out f) (\<lambda>_. bnd (cout a2) K))))) e s1 =
        K () e s2"
    using section_step [where body = customer_row and e = e and n = SO_KHACH_HANG and s = s1 and ma = m2
        and mb = a2 and p = file_customer and hdr = h2, OF customer_row_ok [OF assms] counts_in_range(3,4)]
    by blast
  obtain r3 s3 where 3: "length r3 = nat SO_CHUYEN_DI" "\<forall>l\<in>set r3. no_nl l"
      "console s3 = console s2 @ m3 @ a3"
      "files s3 = (if can_open e file_ride
          then (files s2)(file_ride \<mapsto> clip e file_ride (h3 @ nl @ concat (map (\<lambda>l. l @ nl) r3)))
          else files s2)"
      and st3: "\<And>K :: unit \<Rightarrow> int io.
        bnd (open_out file_ride) (\<lambda>f. bnd (put f (h3 @ nl)) (\<lambda>_. bnd (cout m3) (\<lambda>_.
        bnd (for_loop 1 SO_CHUYEN_DI (ride_row f)) (\<lambda>_. bnd (close_out f) (\<lambda>_. bnd (cout a3) K))))) e s2 =
        K () e s3"
    using section_step [where body = ride_row and e = e and n = SO_CHUYEN_DI and s = s2 and ma = m3
        and mb = a3 and p = file_ride and hdr = h3, OF ride_row_ok [OF assms] counts_in_range(5,6)]
    by blast
  define s4 where "s4 = s3\<lparr>console := console s3 @ b2\<rparr>"
  have t4: "bnd (cout b2) K e s3 = K () e s4" for K :: "unit \<Rightarrow> int io"
    by (simp add: bnd_cout s4_def)
  have run: "main e s = Some (0, s4)"
    unfolding main_def b1_def [symmetric] b2_def [symmetric] h1_def [symmetric] h2_def [symmetric]
      h3_def [symmetric] m1_def [symmetric] m2_def [symmetric] m3_def [symmetric]
      a1_def [symmetric] a2_def [symmetric] a3_def [symmetric]
    by (simp only: t1 t2 t3 st1 st2 st3 t4) (simp add: ret_def)
  have con: "console s4 = console s @ transcript"
    by (simp add: s4_def 3(3) 2(3) 1(3) s0_def sa_def sb_def transcript_def b1_def b2_def m1_def
        m2_def m3_def a1_def a2_def a3_def)
  have f0: "files s0 = files s" by (simp add: s0_def sa_def sb_def)
  have f4: "files s4 = files s3" by (simp add: s4_def)
  have "files s4 file_driver = (if can_open e file_driver
       then Some (clip e file_driver (h1 @ nl @ concat (map (\<lambda>l. l @ nl) r1))) else files s file_driver)"
    by (simp add: f4 3(4) 2(4) 1(4) f0 paths_distinct)
  moreover have "files s4 file_customer = (if can_open e file_customer
       then Some (clip e file_customer (h2 @ nl @ concat (map (\<lambda>l. l @ nl) r2))) else files s file_customer)"
    by (simp add: f4 3(4) 2(4) 1(4) f0 paths_distinct)
  moreover have "files s4 file_ride = (if can_open e file_ride
       then Some (clip e file_ride (h3 @ nl @ concat (map (\<lambda>l. l @ nl) r3))) else files s file_ride)"
    by (simp add: f4 3(4) 2(4) 1(4) f0 paths_distinct)
  moreover have "length r1 = 100" "length r2 = 100" "length r3 = 500"
    using 1(1) 2(1) 3(1) by (simp_all add: SO_TAI_XE_def SO_KHACH_HANG_def SO_CHUYEN_DI_def)
  ultimately show ?thesis
    using run con 1(2) 2(2) 3(2) unfolding h1_def h2_def h3_def by blast
qed

lemma valid_no_dir_env: "valid_env no_dir_env"
  using valid_sample_env by (simp add: valid_env_def no_dir_env_def)


lemma valid_full_disk_env: "valid_env full_disk_env"
  using valid_sample_env by (simp add: valid_env_def full_disk_env_def)

subsection \<open>The text of a timestamp\<close>

lemma digit_mod: "digit (n mod 10) = digit n"
  by (simp add: digit_def)

lemma is_digit_digit [simp]: "is_digit (digit n)"
proof -
  have "n mod 10 < length ''0123456789''" by simp
  then have "digit n \<in> set ''0123456789''"
    unfolding digit_def by (rule nth_mem)
  then show ?thesis by (simp only: is_digit_def)
qed

lemma digit_0: "digit 0 = CHR ''0''"
  by (simp add: digit_def)

lemma digits_2: "digits 2 n = [digit (n div 10), digit n]"
proof -
  have "digits (Suc (Suc 0)) n = [digit (n div 10 mod 10), digit (n mod 10)]"
    by (simp only: digits.simps append_Nil append_Cons)
  then show ?thesis by (simp only: digit_mod numeral_2_eq_2)
qed

lemma digits_4:
  "digits 4 n = [digit (n div 10 div 10 div 10), digit (n div 10 div 10), digit (n div 10), digit n]"
proof -
  have "digits (Suc (Suc (Suc (Suc 0)))) n =
      [digit (n div 10 div 10 div 10 mod 10), digit (n div 10 div 10 mod 10),
       digit (n div 10 mod 10), digit (n mod 10)]"
    by (simp only: digits.simps append_Nil append_Cons)
  moreover have "(4::nat) = Suc (Suc (Suc (Suc 0)))" by simp
  ultimately show ?thesis by (simp only: digit_mod)
qed

lemma show_nat_2:
  assumes "n < 100"
  shows "replicate (2 - length (show_nat n)) CHR ''0'' @ show_nat n = digits 2 n"
proof (cases "n < 10")
  case True
  then have "show_nat n = [digit n]" by (rule show_nat_digit)
  moreover have "n div 10 = 0" "n mod 10 = n" using True by simp_all
  ultimately show ?thesis
    by (simp add: digits_2 digit_0)
next
  case False
  then have "n div 10 < 10" using assms by simp
  then have "show_nat (n div 10) = [digit (n div 10)]" by (rule show_nat_digit)
  moreover have "show_nat n = show_nat (n div 10) @ [digit (n mod 10)]"
    using False by (subst show_nat.simps) simp
  ultimately have "show_nat n = [digit (n div 10), digit (n mod 10)]" by simp
  then show ?thesis
    by (simp add: digits_2 digit_mod)
qed

lemma setw2_digits:
  assumes "0 \<le> n" "n \<le> 99"
  shows "setw2 n = digits 2 (nat n)"
proof -
  have "nat n < 100" using assms by simp
  then show ?thesis
    using assms(1) show_nat_2 [of "nat n"] by (simp add: setw2_def show_int_def)
qed

lemma show_nat_4:
  assumes "1000 \<le> n" "n < 10000"
  shows "show_nat n = digits 4 n"
proof -
  have a: "\<not> n < 10" "\<not> n div 10 < 10" "\<not> n div 10 div 10 < 10" "n div 10 div 10 div 10 < 10"
    using assms by simp_all
  have "show_nat n = show_nat (n div 10) @ [digit (n mod 10)]"
    using a(1) by (subst show_nat.simps) simp
  also have "show_nat (n div 10) = show_nat (n div 10 div 10) @ [digit (n div 10 mod 10)]"
    using a(2) by (subst show_nat.simps) simp
  also have "show_nat (n div 10 div 10) =
      show_nat (n div 10 div 10 div 10) @ [digit (n div 10 div 10 mod 10)]"
    using a(3) by (subst show_nat.simps) simp
  also have "show_nat (n div 10 div 10 div 10) = [digit (n div 10 div 10 div 10)]"
    using a(4) by (rule show_nat_digit)
  finally show ?thesis
    by (simp add: digits_4 digit_mod)
qed

lemma list_all2_digits: "list_all2 fits (replicate p CHR ''d'') (digits p n)"
proof (induction p arbitrary: n)
  case 0
  then show ?case by simp
next
  case (Suc p)
  have "list_all2 fits (replicate p CHR ''d'' @ [CHR ''d'']) (digits p (n div 10) @ [digit (n mod 10)])"
    by (intro list_all2_appendI Suc) (simp add: fits_def)
  then show ?case
    by (simp only: replicate_append_same digits.simps replicate_Suc)
qed

lemma format_tm_digits:
  assumes "tm_ok t"
  shows "format_tm t =
     digits 4 (nat (1900 + tm_year t)) @ ''-'' @ digits 2 (nat (1 + tm_mon t)) @ ''-'' @
     digits 2 (nat (tm_mday t)) @ ''T'' @ digits 2 (nat (tm_hour t)) @ '':'' @
     digits 2 (nat (tm_min t)) @ '':'' @ digits 2 (nat (tm_sec t))"
proof -
  have "1000 \<le> 1900 + tm_year t" "1900 + tm_year t \<le> 9999"
    using assms by (simp_all only: tm_ok_def)
  then have "1000 \<le> nat (1900 + tm_year t)" "nat (1900 + tm_year t) < 10000"
    "\<not> 1900 + tm_year t < 0"
    by linarith+
  then have y: "show_int (1900 + tm_year t) = digits 4 (nat (1900 + tm_year t))"
    using show_nat_4 [of "nat (1900 + tm_year t)"] by (simp only: show_int_def if_False)
  have f: "setw2 (1 + tm_mon t) = digits 2 (nat (1 + tm_mon t))"
    "setw2 (tm_mday t) = digits 2 (nat (tm_mday t))"
    "setw2 (tm_hour t) = digits 2 (nat (tm_hour t))"
    "setw2 (tm_min t) = digits 2 (nat (tm_min t))"
    "setw2 (tm_sec t) = digits 2 (nat (tm_sec t))"
    using assms by (simp_all add: tm_ok_def setw2_digits)
  show ?thesis
    unfolding format_tm_def y f by (rule refl)
qed

lemma is_iso_stamp_digits:
  "is_iso_stamp (digits 4 a @ ''-'' @ digits 2 b @ ''-'' @ digits 2 c @ ''T'' @ digits 2 d @ '':'' @
     digits 2 e @ '':'' @ digits 2 f)"
proof -
  have p: "''dddd-dd-ddTdd:dd:dd'' =
      replicate 4 CHR ''d'' @ ''-'' @ replicate 2 CHR ''d'' @ ''-'' @ replicate 2 CHR ''d'' @ ''T'' @
      replicate 2 CHR ''d'' @ '':'' @ replicate 2 CHR ''d'' @ '':'' @ replicate 2 CHR ''d''"
    by (simp add: numeral_2_eq_2 numeral_Bit0 [of "num.Bit0 num.One"])
  have sep: "list_all2 fits ''-'' ''-''" "list_all2 fits ''T'' ''T''" "list_all2 fits '':'' '':''"
    by (simp_all add: fits_def)
  show ?thesis
    unfolding is_iso_stamp_def p
    by (intro list_all2_appendI list_all2_digits sep)
qed

lemma tm_ok_sample: "tm_ok (utc_tm 1793343600)"
  by code_simp

subsection \<open>Some values\<close>

text \<open>Known values of the rounding: the double nearest to 0.1, and ties to even.\<close>

lemma fl_one_tenth: "fl (1 / 10) = 3602879701896397 / 2 ^ 55"
  by code_simp

lemma fl_ties_to_even: "fl (2 ^ 53 + 1) = 2 ^ 53" "fl (2 ^ 53 + 3) = 2 ^ 53 + 4"
  by code_simp+

lemma rne_half: "rne (5 / 2) = 2" "rne (7 / 2) = 4" "rne (- 5 / 2) = - 2"
  by code_simp+

lemma c_round_half: "c_round (5 / 2) = 3" "c_round (- 5 / 2) = - 3" "c_round (12 / 5) = 2"
  by code_simp+

lemma le_DBL_MAX: "\<bar>v\<bar> \<le> 2 ^ 971 \<Longrightarrow> \<bar>v\<bar> \<le> DBL_MAX"
  using DBL_MAX_big by linarith

text \<open>
  Without the condition on \<open>min + (max - min)\<close> the upper bound can fail: \<open>3/2 + 2\<^sup>5\<^sup>3\<close>
  rounds up to \<open>2\<^sup>5\<^sup>3 + 2\<close>, and \<open>randomDouble(-2\<^sup>5\<^sup>3, 1.5)\<close> returns 2 when \<open>rand()\<close>
  returns \<open>RAND_MAX\<close>.
\<close>

lemma randomDouble_above_max:
  "randomDouble_val 32767 (- (2 ^ 53)) (3 / 2) 32767 = Some 2"
proof -
  have 1: "d_div (d_of_int 32767) (d_of_int 32767) = Some 1"
    using dbl_of_int [of 1] by (simp add: d_div_def d_of_int_def)
  have "fl (3 / 2 + 2 ^ 53) = 2 ^ 53 + 2" by code_simp
  moreover have "(2::rat) ^ 53 + 2 \<le> 2 ^ 54" by simp
  moreover have "(2::rat) ^ 54 \<le> 2 ^ 971" by (intro power_increasing) simp_all
  ultimately have "\<bar>fl (3 / 2 + 2 ^ 53)\<bar> \<le> DBL_MAX"
    using DBL_MAX_big by simp
  then have 2: "d_sub (3 / 2) (- (2 ^ 53)) = Some (2 ^ 53 + 2)"
    using \<open>fl (3 / 2 + 2 ^ 53) = 2 ^ 53 + 2\<close> by (simp add: d_sub_def dbl_def)
  have "fl (2 ^ 53 + 2) = 2 ^ 53 + 2" by code_simp
  moreover have "\<bar>(2::rat) ^ 53 + 2\<bar> \<le> DBL_MAX"
    using \<open>(2::rat) ^ 53 + 2 \<le> 2 ^ 54\<close> \<open>(2::rat) ^ 54 \<le> 2 ^ 971\<close> DBL_MAX_big by simp
  ultimately have 3: "d_mul 1 (2 ^ 53 + 2) = Some (2 ^ 53 + 2)"
    by (simp add: d_mul_def dbl_def)
  have 4: "d_add (- (2 ^ 53)) (2 ^ 53 + 2) = Some 2"
    using dbl_numeral [of "num.Bit0 num.One"] by (simp add: d_add_def)
  show ?thesis
    by (simp only: randomDouble_val_def 1 2 3 4 bind.bind_lunit)
qed

text \<open>The year is written without a width: in the year 10000 it has five digits.\<close>

lemma year_10000: "format_tm (utc_tm 253402300800) = ''10000-01-01T00:00:00''"
proof -
  have t: "utc_tm 253402300800 =
      \<lparr>tm_year = 8100, tm_mon = 0, tm_mday = 1, tm_hour = 0, tm_min = 0, tm_sec = 0\<rparr>"
    by code_simp
  have "show_nat 10000 = ''10000''"
    by (simp add: show_nat.simps [of 10000] show_nat.simps [of 1000] show_nat.simps [of 100]
        show_nat.simps [of 10] show_nat.simps [of "Suc 0"] digit_def)
  then have y: "show_int 10000 = ''10000''"
    by (simp add: show_int_def)
  have f: "setw2 0 = ''00''" "setw2 1 = ''01''"
    using setw2_digits [of 0] setw2_digits [of 1] by (simp_all add: digits_2 digit_def)
  show ?thesis
    by (simp add: format_tm_def t y f)
qed

text \<open>
  A write error leaves a partial file and is not reported: when the file system accepts
  30 characters for \<open>drivers.csv\<close>, the run ends with exit code 0 and the file holds its
  header line and no data line.
\<close>

lemma main_write_error:
  "exit_code full_disk_env start_state = Some 0 \<and>
   file_after full_disk_env start_state file_driver = Some (''ID,Name,Rating,X,Y,TotalRides'' @ nl) \<and>
   data_lines (''ID,Name,Rating,X,Y,TotalRides'' @ nl) = []"
proof -
  obtain s' r1 where m: "main full_disk_env start_state = Some (0, s')"
    and f: "files s' file_driver =
      (if can_open full_disk_env file_driver
       then Some (clip full_disk_env file_driver
                    (''ID,Name,Rating,X,Y,TotalRides'' @ nl @ concat (map (\<lambda>l. l @ nl) r1)))
       else files start_state file_driver)"
    using main_spec [OF valid_full_disk_env, of start_state] by blast
  have "can_open full_disk_env file_driver" "write_limit full_disk_env file_driver = Some 30"
    by (simp_all add: full_disk_env_def sample_env_def)
  then have "files s' file_driver = Some (''ID,Name,Rating,X,Y,TotalRides'' @ nl)"
    using f by (simp add: clip_def nl_def)
  moreover have "data_lines (''ID,Name,Rating,X,Y,TotalRides'' @ nl) = []"
    using data_lines_file(2) [of "''ID,Name,Rating,X,Y,TotalRides''" "[]"] by simp
  ultimately show ?thesis
    using m by (simp add: exit_code_def file_after_def)
qed

subsection \<open>\<open>randomDouble\<close>\<close>

text \<open>
  Claim C7, as amended. For finite doubles \<open>min < max\<close> such that \<open>min + (max - min)\<close>,
  evaluated in double arithmetic, gives \<open>max\<close> again (it does whenever \<open>max - min\<close> is
  exact, as at the three calls in \<open>main\<close>), and for every result \<open>r\<close> of \<open>rand()\<close> in
  \<open>[0, RAND_MAX]\<close>, \<open>randomDouble(min, max)\<close> returns a value in the closed range
  \<open>[min, max]\<close>; it returns \<open>max\<close> itself when \<open>rand()\<close> returns \<open>RAND_MAX\<close>.
\<close>

theorem randomDouble_closed_range:
  assumes "is_double lo" and "is_double hi" and "lo < hi"
    and "0 < rm" and "rm \<le> INT_MAX" and "0 \<le> r" and "r \<le> rm"
    and "d_sub hi lo = Some d" and "d_add lo d = Some hi"
  shows "(\<exists>v. randomDouble_val rm lo hi r = Some v \<and> lo \<le> v \<and> v \<le> hi) \<and>
    randomDouble_val rm lo hi rm = Some hi"
proof
  show "\<exists>v. randomDouble_val rm lo hi r = Some v \<and> lo \<le> v \<and> v \<le> hi"
    using randomDouble_val_range [OF assms] by blast
  have "0 \<le> rm" "rm \<le> rm" using assms(4) by simp_all
  then show "randomDouble_val rm lo hi rm = Some hi"
    using randomDouble_val_range [OF assms(1-5) _ _ assms(8,9), of rm] by blast
qed

theorem randomDouble_closed_range_witness:
  "is_double 2 \<and> is_double 12 \<and> (2::rat) < 12 \<and> (0::int) < 32767 \<and> 32767 \<le> INT_MAX \<and>
   (0::int) \<le> 12345 \<and> (12345::int) \<le> 32767 \<and>
   d_sub 12 2 = Some 10 \<and> d_add 2 10 = Some 12 \<and>
   (\<exists>v. randomDouble_val 32767 2 12 12345 = Some v \<and> 2 \<le> v \<and> v \<le> 12) \<and>
   randomDouble_val 32767 2 12 32767 = Some 12"
proof -
  have 1: "is_double 2" "is_double 12"
    by (simp_all add: is_double_numeral)
  have 2: "d_sub 12 2 = Some 10" "d_add 2 10 = Some 12"
    by (simp_all add: d_sub_def d_add_def dbl_numeral)
  have 3: "(2::rat) < 12" "(0::int) < 32767" "32767 \<le> INT_MAX" "(0::int) \<le> 12345"
    "(12345::int) \<le> 32767"
    by (simp_all add: INT_MAX_def)
  show ?thesis
    using randomDouble_closed_range [OF 1 3 2] 1 2 3 by simp
qed

text \<open>
  Claim C7 as stated fails: when \<open>rand()\<close> returns \<open>RAND_MAX\<close> (here 2147483647), the
  coordinate draw \<open>randomDouble(0, 10)\<close> returns 10, which is not below \<open>max\<close>.
\<close>

theorem randomDouble_reaches_max:
  "randomDouble_val 2147483647 0 10 2147483647 = Some 10"
proof -
  have "is_double 0" "is_double 10" "(0::rat) < 10" "(0::int) < 2147483647"
    "2147483647 \<le> INT_MAX" "(0::int) \<le> 2147483647" "(2147483647::int) \<le> 2147483647"
    "d_sub 10 0 = Some 10" "d_add 0 10 = Some 10"
    by (simp_all add: is_double_numeral INT_MAX_def d_sub_def d_add_def dbl_numeral)
  then show ?thesis
    using randomDouble_val_range [of 0 10 2147483647 2147483647 10] by auto
qed

subsection \<open>\<open>randomInt\<close>\<close>

text \<open>
  Claim C8, as amended. For \<open>min \<le> max\<close> of type \<open>int\<close> whose span \<open>max - min + 1\<close> is
  itself an \<open>int\<close>, and every result \<open>r\<close> of \<open>rand()\<close> in \<open>[0, RAND_MAX]\<close>,
  \<open>randomInt(min, max)\<close> returns a value in \<open>[min, max]\<close>. A value \<open>v\<close> of \<open>[min, max]\<close>
  is returned for \<open>(RAND_MAX + 1) div n\<close> of the \<open>RAND_MAX + 1\<close> results of \<open>rand()\<close>,
  and for one more when \<open>v - min < (RAND_MAX + 1) mod n\<close>, where \<open>n = max - min + 1\<close>: the
  values are equally likely only when \<open>n\<close> divides \<open>RAND_MAX + 1\<close>.
\<close>

theorem randomInt_range_and_hits:
  assumes "INT_MIN \<le> lo" "lo \<le> hi" "hi \<le> INT_MAX" "hi - lo < INT_MAX"
    and "0 \<le> r" "r \<le> rm" "lo \<le> v" "v \<le> hi"
  shows "(\<exists>x. randomInt_val lo hi r = Some x \<and> lo \<le> x \<and> x \<le> hi) \<and>
    int (hits rm lo hi v) =
      (rm + 1) div (hi - lo + 1) + (if v - lo < (rm + 1) mod (hi - lo + 1) then 1 else 0)"
proof
  show "\<exists>x. randomInt_val lo hi r = Some x \<and> lo \<le> x \<and> x \<le> hi"
    using assms(1-5) by (rule randomInt_val_range)
  have "0 \<le> rm" using assms(5,6) by simp
  with assms show "int (hits rm lo hi v) =
      (rm + 1) div (hi - lo + 1) + (if v - lo < (rm + 1) mod (hi - lo + 1) then 1 else 0)"
    by (simp add: hits_eq)
qed

theorem randomInt_range_and_hits_witness:
  "INT_MIN \<le> 10 \<and> (10::int) \<le> 80 \<and> 80 \<le> INT_MAX \<and> 80 - 10 < INT_MAX \<and>
   (0::int) \<le> 12345 \<and> (12345::int) \<le> 32767 \<and> (10::int) \<le> 80 \<and> (80::int) \<le> 80 \<and>
   (\<exists>x. randomInt_val 10 80 12345 = Some x \<and> 10 \<le> x \<and> x \<le> 80) \<and>
   int (hits 32767 10 80 80) = 461"
  using randomInt_range_and_hits [of 10 80 12345 32767 80]
  by (simp add: INT_MIN_def INT_MAX_def)

text \<open>
  Claim C8 as stated fails: with \<open>RAND_MAX = 2147483647\<close>, the status draw
  \<open>randomInt(1, 10)\<close> returns 1 for 214748365 results of \<open>rand()\<close> and 10 for 214748364.
\<close>

theorem randomInt_not_uniform:
  "hits 2147483647 1 10 1 \<noteq> hits 2147483647 1 10 10"
proof -
  have "int (hits 2147483647 1 10 1) = 214748365"
    by (subst hits_eq) (simp_all add: INT_MIN_def INT_MAX_def)
  moreover have "int (hits 2147483647 1 10 10) = 214748364"
    by (subst hits_eq) (simp_all add: INT_MIN_def INT_MAX_def)
  ultimately show ?thesis by auto
qed

subsection \<open>The rows\<close>

text \<open>
  Claim C2. Every Driver row that \<open>main\<close> generates has a Rating in \<open>[3.5, 5.0]\<close>, X and Y
  in \<open>[0, 10]\<close> and TotalRides in \<open>[10, 80]\<close>; Rating, X and Y are numbers rounded to one
  decimal place: each is the double nearest to \<open>k / 10\<close> for an integer \<open>k\<close> and is printed
  as the decimal \<open>k / 10\<close> with exactly one digit after the point.
\<close>

theorem driver_row_ranges:
  assumes "valid_env e"
  shows "\<exists>d s' k1 k2 k3. driver_fields e s = Some (d, s') \<and>
    7 / 2 \<le> rating d \<and> rating d \<le> 5 \<and> 0 \<le> dx d \<and> dx d \<le> 10 \<and> 0 \<le> dy d \<and> dy d \<le> 10 \<and>
    10 \<le> total_rides d \<and> total_rides d \<le> 80 \<and>
    tenths (rating d) k1 \<and> 35 \<le> k1 \<and> k1 \<le> 50 \<and>
    tenths (dx d) k2 \<and> 0 \<le> k2 \<and> k2 \<le> 100 \<and>
    tenths (dy d) k3 \<and> 0 \<le> k3 \<and> k3 \<le> 100"
proof -
  obtain n k1 k2 k3 t where eq: "driver_fields e s =
      Some (\<lparr>dname = n, rating = fl (of_int k1 / 10), dx = fl (of_int k2 / 10),
              dy = fl (of_int k3 / 10), total_rides = t\<rparr>, s\<lparr>drawn := drawn s + 7\<rparr>)"
    and k: "35 \<le> k1" "k1 \<le> 50" "0 \<le> k2" "k2 \<le> 100" "0 \<le> k3" "k3 \<le> 100" "10 \<le> t" "t \<le> 80"
    using driver_fields_eq [OF assms, of s] by blast
  have 1: "7 / 2 \<le> fl (of_int k1 / 10) \<and> fl (of_int k1 / 10) \<le> 5"
    using k(1,2) is_double_bounds(1,2) by (rule tenth_range) simp_all
  have 2: "0 \<le> fl (of_int k2 / 10) \<and> fl (of_int k2 / 10) \<le> 10"
    using k(3,4) is_double_bounds(3,4) by (rule tenth_range) simp_all
  have 3: "0 \<le> fl (of_int k3 / 10) \<and> fl (of_int k3 / 10) \<le> 10"
    using k(5,6) is_double_bounds(3,4) by (rule tenth_range) simp_all
  have 4: "tenths (fl (of_int k1 / 10)) k1" "tenths (fl (of_int k2 / 10)) k2"
    "tenths (fl (of_int k3 / 10)) k3"
    using k by (auto intro!: tenths_ok)
  show ?thesis
    using eq 1 2 3 4 k by auto
qed

theorem driver_row_ranges_witness:
  "valid_env sample_env \<and>
   (\<exists>d s' k1 k2 k3. driver_fields sample_env start_state = Some (d, s') \<and>
    7 / 2 \<le> rating d \<and> rating d \<le> 5 \<and> 0 \<le> dx d \<and> dx d \<le> 10 \<and> 0 \<le> dy d \<and> dy d \<le> 10 \<and>
    10 \<le> total_rides d \<and> total_rides d \<le> 80 \<and>
    tenths (rating d) k1 \<and> 35 \<le> k1 \<and> k1 \<le> 50 \<and>
    tenths (dx d) k2 \<and> 0 \<le> k2 \<and> k2 \<le> 100 \<and>
    tenths (dy d) k3 \<and> 0 \<le> k3 \<and> k3 \<le> 100)"
  using driver_row_ranges [OF valid_sample_env, of start_state] valid_sample_env by simp

text \<open>
  Claim C3. Every Ride row that \<open>main\<close> generates has a CustomerId in \<open>[1, M]\<close> and a
  DriverId in \<open>[1, N]\<close>, where \<open>M = N = 100\<close> are the customer and driver counts, and a
  Distance in \<open>[2, 12]\<close> rounded to one decimal place.
\<close>

theorem ride_row_ranges:
  assumes "valid_env e"
  shows "\<exists>r s' k. ride_fields e s = Some (r, s') \<and>
    1 \<le> customer_id r \<and> customer_id r \<le> SO_KHACH_HANG \<and> SO_KHACH_HANG = 100 \<and>
    1 \<le> driver_id r \<and> driver_id r \<le> SO_TAI_XE \<and> SO_TAI_XE = 100 \<and>
    2 \<le> distance r \<and> distance r \<le> 12 \<and> tenths (distance r) k \<and> 20 \<le> k \<and> k \<le> 120"
proof -
  obtain k c d f days h v s' where eq: "ride_fields e s =
      Some (\<lparr>customer_id = c, driver_id = d, distance = fl (of_int k / 10), fare = f,
              timestamp = format_tm (localtime e (clock e (clock_reads s) - (days * 86400 + h * 3600))),
              status = ride_status v\<rparr>, s')"
    and k: "20 \<le> k" "k \<le> 120" "1 \<le> c" "c \<le> SO_KHACH_HANG" "1 \<le> d" "d \<le> SO_TAI_XE"
    using ride_fields_eq [OF assms, of s] by blast
  have 1: "2 \<le> fl (of_int k / 10) \<and> fl (of_int k / 10) \<le> 12"
    using k(1,2) is_double_bounds(5,6) by (rule tenth_range) simp_all
  have 2: "tenths (fl (of_int k / 10)) k"
    using k by (auto intro!: tenths_ok)
  show ?thesis
    using eq 1 2 k by (auto simp: SO_KHACH_HANG_def SO_TAI_XE_def)
qed

theorem ride_row_ranges_witness:
  "valid_env sample_env \<and>
   (\<exists>r s' k. ride_fields sample_env start_state = Some (r, s') \<and>
    1 \<le> customer_id r \<and> customer_id r \<le> SO_KHACH_HANG \<and> SO_KHACH_HANG = 100 \<and>
    1 \<le> driver_id r \<and> driver_id r \<le> SO_TAI_XE \<and> SO_TAI_XE = 100 \<and>
    2 \<le> distance r \<and> distance r \<le> 12 \<and> tenths (distance r) k \<and> 20 \<le> k \<and> k \<le> 120)"
  using ride_row_ranges [OF valid_sample_env, of start_state] valid_sample_env by simp

text \<open>
  Claim C4. In every Ride row that \<open>main\<close> generates, the fare is the double product
  \<open>dist * 12000\<close>, and the Fare field, written with \<open>setprecision(0)\<close> as an integer
  numeral, is \<open>round(Distance \<times> 12000)\<close>: both for the double \<open>dist\<close> and for the Distance
  as it is printed.
\<close>

theorem ride_fare_rounded:
  assumes "valid_env e"
  shows "\<exists>r s'. ride_fields e s = Some (r, s') \<and>
    d_mul (distance r) 12000 = Some (fare r) \<and>
    of_int (fixed_units 0 (fare r)) = c_round (distance r * 12000) \<and>
    of_int (fixed_units 0 (fare r)) = c_round (of_int (fixed_units 1 (distance r)) / 10 * 12000) \<and>
    fixed 0 (fare r) = show_int (fixed_units 0 (fare r))"
proof -
  obtain k c d f days h v s' where eq: "ride_fields e s =
      Some (\<lparr>customer_id = c, driver_id = d, distance = fl (of_int k / 10), fare = f,
              timestamp = format_tm (localtime e (clock e (clock_reads s) - (days * 86400 + h * 3600))),
              status = ride_status v\<rparr>, s')"
    and k: "20 \<le> k" "k \<le> 120"
    and f: "d_mul (fl (of_int k / 10)) 12000 = Some f" "fixed_units 0 f = 1200 * k"
    using ride_fields_eq [OF assms, of s] by blast
  have k0: "0 \<le> k" using k by simp
  have 1: "c_round (fl (of_int k / 10) * 12000) = of_int (1200 * k)"
    using k0 k(2) by (rule fare_round)
  have "tenths (fl (of_int k / 10)) k" using k0 k(2) by (rule tenths_ok)
  then have u: "fixed_units 1 (fl (of_int k / 10)) = k" by (simp add: tenths_def)
  have "c_round (of_int (1200 * k)) = of_int (1200 * k)"
    by (rule c_round_near) simp
  moreover have "(of_int k :: rat) / 10 * 12000 = of_int (1200 * k)" by simp
  ultimately have 2: "c_round (of_int k / 10 * 12000) = of_int (1200 * k)" by simp
  have "f = fl (fl (of_int k / 10) * 12000)"
    using f(1) by (auto simp: d_mul_def dbl_def split: if_splits)
  moreover have "fl 0 \<le> fl (of_int k / 10)" using k0 by (intro fl_mono) simp
  then have "fl 0 \<le> fl (fl (of_int k / 10) * 12000)" by (intro fl_mono) simp
  ultimately have "0 \<le> f" by simp
  then have 3: "fixed 0 f = show_int (fixed_units 0 f)" by (rule fixed_0_text)
  show ?thesis
    using eq f 1 2 3 u by simp
qed

theorem ride_fare_rounded_witness:
  "valid_env sample_env \<and>
   (\<exists>r s'. ride_fields sample_env start_state = Some (r, s') \<and>
    d_mul (distance r) 12000 = Some (fare r) \<and>
    of_int (fixed_units 0 (fare r)) = c_round (distance r * 12000) \<and>
    of_int (fixed_units 0 (fare r)) = c_round (of_int (fixed_units 1 (distance r)) / 10 * 12000) \<and>
    fixed 0 (fare r) = show_int (fixed_units 0 (fare r)))"
  using ride_fare_rounded [OF valid_sample_env, of start_state] valid_sample_env by simp

text \<open>
  Claim C5, as amended. In every Ride row that \<open>main\<close> generates, the Status is CONFIRMED or
  CANCELLED, and it is CONFIRMED exactly when the draw \<open>randomInt(1, 10)\<close> of the row (the
  sixth call of \<open>rand()\<close> for the row, with the calls taken from left to right), which is
  \<open>1 + rand() % 10\<close>, is at most 8: CONFIRMED is the outcome for 8 of the 10 values of the
  draw. Of the \<open>RAND_MAX + 1\<close> possible results of \<open>rand()\<close>,
  \<open>8 * ((RAND_MAX + 1) div 10) + min 8 ((RAND_MAX + 1) mod 10)\<close> give CONFIRMED: never
  fewer than 8 in 10 of them, at most 1.6 results more than that, and exactly 8 in 10 only
  when \<open>RAND_MAX + 1\<close> is a multiple of 10.
\<close>

theorem ride_status_draw:
  assumes "valid_env e"
  shows "\<exists>r s' v. ride_fields e s = Some (r, s') \<and>
    randomInt_val 1 10 (rand_seq e (seed s) (drawn s + 5)) = Some v \<and>
    v = 1 + rand_seq e (seed s) (drawn s + 5) mod 10 \<and> 1 \<le> v \<and> v \<le> 10 \<and>
    (status r = ''CONFIRMED'' \<or> status r = ''CANCELLED'') \<and>
    (status r = ''CONFIRMED'') = (v \<le> 8) \<and>
    length (filter (\<lambda>v. ride_status v = ''CONFIRMED'') [1..10]) = 8 \<and>
    int (confirmed_hits (RAND_MAX e)) =
      8 * ((RAND_MAX e + 1) div 10) + min 8 ((RAND_MAX e + 1) mod 10) \<and>
    8 * (RAND_MAX e + 1) \<le> 10 * int (confirmed_hits (RAND_MAX e)) \<and>
    10 * int (confirmed_hits (RAND_MAX e)) \<le> 8 * (RAND_MAX e + 1) + 16 \<and>
    (10 * int (confirmed_hits (RAND_MAX e)) = 8 * (RAND_MAX e + 1)) =
      ((RAND_MAX e + 1) mod 10 = 0)"
proof -
  obtain k c d f days h v s' where eq: "ride_fields e s =
      Some (\<lparr>customer_id = c, driver_id = d, distance = fl (of_int k / 10), fare = f,
              timestamp = format_tm (localtime e (clock e (clock_reads s) - (days * 86400 + h * 3600))),
              status = ride_status v\<rparr>, s')"
    and v: "1 \<le> v" "v \<le> 10" "randomInt_val 1 10 (rand_seq e (seed s) (drawn s + 5)) = Some v"
    using ride_fields_eq [OF assms, of s] by blast
  have rm: "0 \<le> RAND_MAX e" and "0 \<le> rand_seq e (seed s) (drawn s + 5)"
    using assms by (simp_all add: valid_env_def)
  then have "randomInt_val 1 10 (rand_seq e (seed s) (drawn s + 5)) =
      Some (1 + rand_seq e (seed s) (drawn s + 5) mod (10 - 1 + 1))"
    by (intro randomInt_val_eq) (simp_all add: INT_MIN_def INT_MAX_def)
  then have v': "v = 1 + rand_seq e (seed s) (drawn s + 5) mod 10"
    using v(3) by simp
  have len: "length (filter (\<lambda>v. ride_status v = ''CONFIRMED'') [1..10]) = 8"
    by (simp add: ride_status_def upto_rec1)
  define r where "r = \<lparr>customer_id = c, driver_id = d, distance = fl (of_int k / 10), fare = f,
              timestamp = format_tm (localtime e (clock e (clock_reads s) - (days * 86400 + h * 3600))),
              status = ride_status v\<rparr>"
  have r: "ride_fields e s = Some (r, s')"
    using eq by (simp only: r_def)
  have st: "status r = ''CONFIRMED'' \<or> status r = ''CANCELLED''"
    "(status r = ''CONFIRMED'') = (v \<le> 8)"
    by (simp_all add: r_def ride_status_def)
  show ?thesis
    by (intro exI [of _ r] exI [of _ s'] exI [of _ v] conjI)
      (rule r v(3) v' v(1) v(2) st(1) st(2) len confirmed_hits_eq [OF rm]
         confirmed_share(1) [OF rm] confirmed_share(2) [OF rm] confirmed_share(3) [OF rm])+
qed

theorem ride_status_draw_witness:
  "valid_env sample_env \<and>
   (\<exists>r s' v. ride_fields sample_env start_state = Some (r, s') \<and>
    randomInt_val 1 10 (rand_seq sample_env (seed start_state) (drawn start_state + 5)) = Some v \<and>
    v = 1 + rand_seq sample_env (seed start_state) (drawn start_state + 5) mod 10 \<and>
    1 \<le> v \<and> v \<le> 10 \<and>
    (status r = ''CONFIRMED'' \<or> status r = ''CANCELLED'') \<and>
    (status r = ''CONFIRMED'') = (v \<le> 8) \<and>
    length (filter (\<lambda>v. ride_status v = ''CONFIRMED'') [1..10]) = 8 \<and>
    int (confirmed_hits 32767) = 26216 \<and>
    8 * 32768 \<le> 10 * int (confirmed_hits 32767) \<and>
    10 * int (confirmed_hits 32767) \<le> 8 * 32768 + 16 \<and>
    10 * int (confirmed_hits 32767) \<noteq> 8 * 32768)"
proof -
  have rm: "RAND_MAX sample_env = 32767"
    by (simp add: sample_env_def)
  show ?thesis
    using ride_status_draw [OF valid_sample_env, of start_state] valid_sample_env
    unfolding rm by simp
qed

text \<open>
  Claim C5 as stated fails: CONFIRMED is not the outcome on 8 of 10 random draws. With
  \<open>RAND_MAX = 2147483647\<close>, 1717986920 of the 2147483648 results of \<open>rand()\<close> make the
  status expression CONFIRMED, and 8 in 10 of them would be 1717986918.4: the draw
  \<open>1 + rand() % 10\<close> is not uniform on \<open>[1, 10]\<close>.
\<close>

theorem ride_status_not_8_of_10:
  "int (confirmed_hits 2147483647) = 1717986920 \<and>
   10 * int (confirmed_hits 2147483647) \<noteq> 8 * (2147483647 + 1)"
proof -
  have "int (confirmed_hits 2147483647) = 1717986920"
    by (subst confirmed_hits_eq) simp_all
  then show ?thesis by simp
qed

text \<open>
  Claim C10. In every Ride row that \<open>main\<close> generates, the Distance is printed as
  \<open>k / 10\<close> for an integer \<open>k\<close> in \<open>[20, 120]\<close>, and the Fare is printed as \<open>1200 \<times> k\<close>: a
  positive integer multiple of 1200 in \<open>[24000, 144000]\<close>.
\<close>

theorem ride_fare_multiple:
  assumes "valid_env e"
  shows "\<exists>r s' k. ride_fields e s = Some (r, s') \<and>
    tenths (distance r) k \<and> 20 \<le> k \<and> k \<le> 120 \<and>
    fixed_units 0 (fare r) = 1200 * k \<and> fixed 0 (fare r) = show_int (1200 * k) \<and>
    0 < fixed_units 0 (fare r) \<and> fixed_units 0 (fare r) mod 1200 = 0 \<and>
    24000 \<le> fixed_units 0 (fare r) \<and> fixed_units 0 (fare r) \<le> 144000"
proof -
  obtain k c d f days h v s' where eq: "ride_fields e s =
      Some (\<lparr>customer_id = c, driver_id = d, distance = fl (of_int k / 10), fare = f,
              timestamp = format_tm (localtime e (clock e (clock_reads s) - (days * 86400 + h * 3600))),
              status = ride_status v\<rparr>, s')"
    and k: "20 \<le> k" "k \<le> 120"
    and f: "d_mul (fl (of_int k / 10)) 12000 = Some f" "fixed_units 0 f = 1200 * k"
    using ride_fields_eq [OF assms, of s] by blast
  have k0: "0 \<le> k" using k by simp
  have t: "tenths (fl (of_int k / 10)) k" using k0 k(2) by (rule tenths_ok)
  have "f = fl (fl (of_int k / 10) * 12000)"
    using f(1) by (auto simp: d_mul_def dbl_def split: if_splits)
  moreover have "fl 0 \<le> fl (of_int k / 10)" using k0 by (intro fl_mono) simp
  then have "fl 0 \<le> fl (fl (of_int k / 10) * 12000)" by (intro fl_mono) simp
  ultimately have "0 \<le> f" by simp
  then have "fixed 0 f = show_int (fixed_units 0 f)" by (rule fixed_0_text)
  then show ?thesis
    using eq f(2) t k by auto
qed

theorem ride_fare_multiple_witness:
  "valid_env sample_env \<and>
   (\<exists>r s' k. ride_fields sample_env start_state = Some (r, s') \<and>
    tenths (distance r) k \<and> 20 \<le> k \<and> k \<le> 120 \<and>
    fixed_units 0 (fare r) = 1200 * k \<and> fixed 0 (fare r) = show_int (1200 * k) \<and>
    0 < fixed_units 0 (fare r) \<and> fixed_units 0 (fare r) mod 1200 = 0 \<and>
    24000 \<le> fixed_units 0 (fare r) \<and> fixed_units 0 (fare r) \<le> 144000)"
  using ride_fare_multiple [OF valid_sample_env, of start_state] valid_sample_env by simp

subsection \<open>\<open>main\<close>\<close>




text \<open>
  Claim C9. Every run of \<open>main\<close> returns the exit code 0, whatever \<open>rand()\<close> and the clock
  yield and whether or not the output files can be opened; the console shows the same
  text in every case. No stream is tested, so a failed open is not distinguished from
  success.
\<close>

theorem main_exit_code:
  assumes "valid_env e"
  shows "exit_code e s = Some 0 \<and> console_after e s = Some (console s @ transcript)"
proof -
  obtain s' where "main e s = Some (0, s')" "console s' = console s @ transcript"
    using main_spec [OF assms, of s] by blast
  then show ?thesis by (simp add: exit_code_def console_after_def)
qed

theorem main_exit_code_witness:
  "valid_env no_dir_env \<and> exit_code no_dir_env start_state = Some 0 \<and>
   console_after no_dir_env start_state = Some (console start_state @ transcript)"
  using main_exit_code [OF valid_no_dir_env, of start_state] valid_no_dir_env by simp

subsection \<open>\<open>sinh_timestamp\<close>\<close>

text \<open>
  Claim C6, as amended. For every \<open>ngay_truoc\<close> from -24855 to 24854, the values for which
  the \<open>int\<close> offset \<open>ngay_truoc * 86400 + randomInt(0, 23) * 3600\<close> cannot overflow,
  \<open>sinh_timestamp\<close> reads the clock once, draws an hour \<open>h\<close> in \<open>[0, 23]\<close>, and returns the
  text of the local time of the instant \<open>now - ngay_truoc * 86400 - h * 3600\<close>. For a local
  time \<open>t\<close> with a year from 1000 to 9999 that text is the four-digit year, and month,
  day, hour, minute and second as two digits with leading zeros, in the shape
  \<open>YYYY-MM-DDTHH:MM:SS\<close>. Each ride draws \<open>ngay_truoc\<close> in \<open>[1, 30]\<close>, so its Timestamp is
  the local time of an instant at least one day and less than 31 days before the clock
  reading taken for that ride.
\<close>

theorem sinh_timestamp_spec:
  assumes "valid_env e" and "- 24855 \<le> d" and "d \<le> 24854" and "tm_ok t"
  shows "(\<exists>h s'. 0 \<le> h \<and> h \<le> 23 \<and>
      randomInt_val 0 23 (rand_seq e (seed s) (drawn s)) = Some h \<and>
      sinh_timestamp d e s =
        Some (format_tm (localtime e (clock e (clock_reads s) - d * 86400 - h * 3600)), s')) \<and>
    format_tm t =
      digits 4 (nat (1900 + tm_year t)) @ ''-'' @ digits 2 (nat (1 + tm_mon t)) @ ''-'' @
      digits 2 (nat (tm_mday t)) @ ''T'' @ digits 2 (nat (tm_hour t)) @ '':'' @
      digits 2 (nat (tm_min t)) @ '':'' @ digits 2 (nat (tm_sec t)) \<and>
    is_iso_stamp (format_tm t) \<and>
    (\<exists>r s' days h off. ride_fields e s = Some (r, s') \<and>
      1 \<le> days \<and> days \<le> 30 \<and> 0 \<le> h \<and> h \<le> 23 \<and> off = days * 86400 + h * 3600 \<and>
      timestamp r = format_tm (localtime e (clock e (clock_reads s) - off)) \<and>
      86400 \<le> off \<and> off < 31 * 86400)"
proof (intro conjI)
  obtain h where h: "0 \<le> h" "h \<le> 23" "randomInt_val 0 23 (rand_seq e (seed s) (drawn s)) = Some h"
    and st: "\<And>K :: string \<Rightarrow> string io. bnd (sinh_timestamp d) K e s =
      K (format_tm (localtime e (clock e (clock_reads s) - (d * 86400 + h * 3600)))) e
        (s\<lparr>clock_reads := Suc (clock_reads s), drawn := Suc (drawn s)\<rparr>)"
    using sinh_timestamp_step [OF assms(1-3), of s] by blast
  have "bnd (sinh_timestamp d) ret e s = sinh_timestamp d e s"
    by (simp add: bnd_def ret_def split: option.splits)
  then have "sinh_timestamp d e s =
      Some (format_tm (localtime e (clock e (clock_reads s) - (d * 86400 + h * 3600))),
        s\<lparr>clock_reads := Suc (clock_reads s), drawn := Suc (drawn s)\<rparr>)"
    using st [of ret] by (simp add: ret_def)
  moreover have "clock e (clock_reads s) - (d * 86400 + h * 3600) =
      clock e (clock_reads s) - d * 86400 - h * 3600"
    by simp
  ultimately have "sinh_timestamp d e s =
      Some (format_tm (localtime e (clock e (clock_reads s) - d * 86400 - h * 3600)),
        s\<lparr>clock_reads := Suc (clock_reads s), drawn := Suc (drawn s)\<rparr>)"
    by (simp only:)
  then show "\<exists>h s'. 0 \<le> h \<and> h \<le> 23 \<and>
      randomInt_val 0 23 (rand_seq e (seed s) (drawn s)) = Some h \<and>
      sinh_timestamp d e s =
        Some (format_tm (localtime e (clock e (clock_reads s) - d * 86400 - h * 3600)), s')"
    using h by blast
next
  show f: "format_tm t =
      digits 4 (nat (1900 + tm_year t)) @ ''-'' @ digits 2 (nat (1 + tm_mon t)) @ ''-'' @
      digits 2 (nat (tm_mday t)) @ ''T'' @ digits 2 (nat (tm_hour t)) @ '':'' @
      digits 2 (nat (tm_min t)) @ '':'' @ digits 2 (nat (tm_sec t))"
    using assms(4) by (rule format_tm_digits)
  show "is_iso_stamp (format_tm t)"
    unfolding f by (rule is_iso_stamp_digits)
next
  obtain k c dr f days h v s' where eq: "ride_fields e s =
      Some (\<lparr>customer_id = c, driver_id = dr, distance = fl (of_int k / 10), fare = f,
              timestamp = format_tm (localtime e (clock e (clock_reads s) - (days * 86400 + h * 3600))),
              status = ride_status v\<rparr>, s')"
    and r: "1 \<le> days" "days \<le> 30" "0 \<le> h" "h \<le> 23"
    using ride_fields_eq [OF assms(1), of s] by blast
  define off where "off = days * 86400 + h * 3600"
  define rd where "rd = \<lparr>customer_id = c, driver_id = dr, distance = fl (of_int k / 10), fare = f,
              timestamp = format_tm (localtime e (clock e (clock_reads s) - (days * 86400 + h * 3600))),
              status = ride_status v\<rparr>"
  have "86400 \<le> off" "off < 31 * 86400"
    using r by (simp_all add: off_def)
  moreover have "timestamp rd = format_tm (localtime e (clock e (clock_reads s) - off))"
    by (simp add: rd_def off_def)
  moreover have "ride_fields e s = Some (rd, s')"
    using eq by (simp only: rd_def)
  moreover have "off = days * 86400 + h * 3600"
    by (rule off_def)
  ultimately show "\<exists>r s' days h off. ride_fields e s = Some (r, s') \<and>
      1 \<le> days \<and> days \<le> 30 \<and> 0 \<le> h \<and> h \<le> 23 \<and> off = days * 86400 + h * 3600 \<and>
      timestamp r = format_tm (localtime e (clock e (clock_reads s) - off)) \<and>
      86400 \<le> off \<and> off < 31 * 86400"
    using r by blast
qed


theorem sinh_timestamp_spec_witness:
  "valid_env sample_env \<and> (- 24855::int) \<le> 7 \<and> (7::int) \<le> 24854 \<and> tm_ok (utc_tm 1793343600) \<and>
   (\<exists>h s'. 0 \<le> h \<and> h \<le> 23 \<and>
      randomInt_val 0 23 (rand_seq sample_env (seed start_state) (drawn start_state)) = Some h \<and>
      sinh_timestamp 7 sample_env start_state =
        Some (format_tm (localtime sample_env
          (clock sample_env (clock_reads start_state) - 7 * 86400 - h * 3600)), s')) \<and>
   format_tm (utc_tm 1793343600) =
      digits 4 (nat (1900 + tm_year (utc_tm 1793343600))) @ ''-'' @
      digits 2 (nat (1 + tm_mon (utc_tm 1793343600))) @ ''-'' @
      digits 2 (nat (tm_mday (utc_tm 1793343600))) @ ''T'' @
      digits 2 (nat (tm_hour (utc_tm 1793343600))) @ '':'' @
      digits 2 (nat (tm_min (utc_tm 1793343600))) @ '':'' @
      digits 2 (nat (tm_sec (utc_tm 1793343600))) \<and>
   is_iso_stamp (format_tm (utc_tm 1793343600)) \<and>
   (\<exists>r s' days h off. ride_fields sample_env start_state = Some (r, s') \<and>
      1 \<le> days \<and> days \<le> 30 \<and> 0 \<le> h \<and> h \<le> 23 \<and> off = days * 86400 + h * 3600 \<and>
      timestamp r = format_tm (localtime sample_env
        (clock sample_env (clock_reads start_state) - off)) \<and>
      86400 \<le> off \<and> off < 31 * 86400)"
proof -
  have r: "(- 24855::int) \<le> 7" "(7::int) \<le> 24854" by simp_all
  show ?thesis
    using sinh_timestamp_spec [OF valid_sample_env r tm_ok_sample, of start_state]
      valid_sample_env tm_ok_sample r
    by (intro conjI) blast+
qed

text \<open>
  Claim C6 as stated fails: \<open>ngay_truoc\<close> is any \<open>int\<close>, and for \<open>ngay_truoc = 24856\<close> the
  product \<open>ngay_truoc * 86400 = 2147558400\<close> overflows \<open>int\<close>; the call has no defined
  result.
\<close>

theorem sinh_timestamp_overflow:
  "sinh_timestamp 24856 sample_env start_state = None"
  by (simp add: sinh_timestamp_def bnd_def c_time_def lift_def stamp_offset_def int_chk_def
      INT_MIN_def INT_MAX_def split: option.splits)

end
